theory Spec2Isabelle
  imports Complex_Main "HOL-Library.Product_Lexorder"
begin

section \<open>Numbers, optional values and arrays of the source\<close>

text \<open>
  The source is TypeScript. Its \<^verbatim>\<open>number\<close> is modelled by \<^typ>\<open>real\<close> where it is a
  pixel quantity (start, end, size, offsets, paddings) and by \<^typ>\<open>int\<close> where it is an
  index, a count or a lane. NaN and the infinities have no counterpart here, and the rounding of
  IEEE doubles is not modelled. \<^verbatim>\<open>undefined\<close> and \<^verbatim>\<open>null\<close> are \<^term>\<open>None\<close>.
\<close>

text \<open>
  \<^verbatim>\<open>x | 0\<close> is ECMAScript's ToInt32: truncate towards zero, then wrap into the signed
  32-bit range. \<^verbatim>\<open>((low + high) / 2) | 0\<close> is that applied to the exact quotient.
\<close>

definition ToInt32 :: "int \<Rightarrow> int" where
  "ToInt32 n = (n + 2 ^ 31) mod 2 ^ 32 - 2 ^ 31"

definition half_or_zero :: "int \<Rightarrow> int" where
  "half_or_zero s = ToInt32 (if 0 \<le> s then s div 2 else - ((- s) div 2))"

text \<open>
  \<^verbatim>\<open>a % b\<close> on integers: the result has the sign of the dividend. With \<^verbatim>\<open>b = 0\<close>
  JavaScript gives NaN, which \<^typ>\<open>int\<close> cannot hold; the model then gives \<open>0\<close>.
\<close>

definition js_rem :: "int \<Rightarrow> int \<Rightarrow> int" where
  "js_rem a b = (if b = 0 then 0 else sgn a * (\<bar>a\<bar> mod \<bar>b\<bar>))"

text \<open>Reading \<^verbatim>\<open>xs[i]\<close> from a dense array: \<^verbatim>\<open>undefined\<close> outside the bounds.\<close>

definition item_at :: "'a list \<Rightarrow> int \<Rightarrow> 'a option" where
  "item_at xs i = (if 0 \<le> i \<and> i < int (length xs) then Some (xs ! nat i) else None)"


section \<open>The binary search of the range calculator\<close>

text \<open>
  \<^verbatim>\<open>findNearestBinarySearch(low, high, getCurrentValue, value)\<close>. The loop is not
  structurally bounded (the middle index goes through ToInt32), so the function lives in the
  option monad: \<^term>\<open>None\<close> means that the call does not return a value, either because
  the loop runs forever or because \<^verbatim>\<open>getCurrentValue\<close> throws (its result is
  \<^term>\<open>None\<close>).
\<close>

partial_function (option) findNearestBinarySearch ::
  "int \<Rightarrow> int \<Rightarrow> (int \<Rightarrow> real option) \<Rightarrow> real \<Rightarrow> int option"
where
  "findNearestBinarySearch low high getCurrentValue val =
     (if low \<le> high then
        (case getCurrentValue (half_or_zero (low + high)) of
           None \<Rightarrow> None
         | Some currentValue \<Rightarrow>
             if currentValue < val then
               findNearestBinarySearch (half_or_zero (low + high) + 1) high getCurrentValue val
             else if currentValue > val then
               findNearestBinarySearch low (half_or_zero (low + high) - 1) getCurrentValue val
             else Some (half_or_zero (low + high)))
      else if low > 0 then Some (low - 1) else Some 0)"

declare findNearestBinarySearch.simps [code]

section \<open>Data model\<close>

text \<open>
  \<^verbatim>\<open>type Key = number | string | bigint\<close>. A \<^verbatim>\<open>Map\<close> compares keys of different
  types as different.
\<close>

datatype Key = KeyNumber real | KeyString string | KeyBigint int

text \<open>
  \<^verbatim>\<open>interface VirtualItem\<close>. The fields \<^verbatim>\<open>end\<close> and \<^verbatim>\<open>size\<close> carry a prime, since
  both names are taken in Isabelle. An index is a natural number.
\<close>

record VirtualItem =
  key :: Key
  index :: nat
  start :: real
  end' :: real
  size' :: real
  lane :: int

text \<open>
  The object \<^verbatim>\<open>{ startIndex, endIndex }\<close> returned by the range calculator, and
  \<^verbatim>\<open>interface Range\<close>, which adds \<^verbatim>\<open>overscan\<close> and \<^verbatim>\<open>count\<close> (named \<open>range_overscan\<close>
  and \<open>range_count\<close> here, apart from the options of the same names).
\<close>

record index_range =
  startIndex :: int
  endIndex :: int

record Range = index_range +
  range_overscan :: int
  range_count :: int


section \<open>The default render-window extractor\<close>

text \<open>The loop \<^verbatim>\<open>for (let i = start; i <= end; i++) arr.push(i)\<close>.\<close>

function push_indexes :: "int \<Rightarrow> int \<Rightarrow> int list \<Rightarrow> int list" where
  "push_indexes i e arr = (if i \<le> e then push_indexes (i + 1) e (arr @ [i]) else arr)"
  by pat_completeness auto
termination
  by (relation "measure (\<lambda>(i, e, arr). nat (e - i + 1))") auto

definition defaultRangeExtractor :: "Range \<Rightarrow> int list" where
  "defaultRangeExtractor rng =
     (let start_i = max (startIndex rng - range_overscan rng) 0;
          end_i = min (endIndex rng + range_overscan rng) (range_count rng - 1)
      in push_indexes start_i end_i [])"


section \<open>The memoized recomputation primitive\<close>

text \<open>
  \<^verbatim>\<open>memo(getDeps, fn, opts)\<close> closes over two variables, \<^verbatim>\<open>deps\<close> and \<^verbatim>\<open>result\<close>; they are
  the state of the memoized function. One call of the memoized function evaluates
  \<^verbatim>\<open>getDeps()\<close> once; the tuple it produced is the argument \<open>newDeps\<close>. The outcome of a call
  holds the value returned (\<^term>\<open>None\<close> is \<^verbatim>\<open>undefined\<close>), the state afterwards, the argument
  tuples \<^verbatim>\<open>fn\<close> was invoked with and the results handed to \<^verbatim>\<open>opts.onChange\<close>. Dependencies
  are compared with \<^verbatim>\<open>!==\<close>, modelled by inequality of the values. The timing
  instrumentation under \<^verbatim>\<open>opts.debug\<close> only prints and is left out.
\<close>

record ('d, 'r) memo_state =
  deps :: "'d list"
  result :: "'r option"

record 'd memo_opts =
  initialDeps :: "'d list option"
  has_onChange :: bool

record ('d, 'r) memo_outcome =
  returned :: "'r option"
  state_after :: "('d, 'r) memo_state"
  fn_calls :: "'d list list"
  onChange_calls :: "'r list"

definition memo :: "'d memo_opts \<Rightarrow> ('d, 'r) memo_state" where
  "memo opts = \<lparr>deps = (case initialDeps opts of None \<Rightarrow> [] | Some d \<Rightarrow> d), result = None\<rparr>"

definition memoizedFunction ::
  "'d memo_opts \<Rightarrow> ('d list \<Rightarrow> 'r) \<Rightarrow> 'd list \<Rightarrow> ('d, 'r) memo_state \<Rightarrow> ('d, 'r) memo_outcome"
where
  "memoizedFunction opts fn newDeps st =
     (let depsChanged =
            (length newDeps \<noteq> length (deps st) \<or>
             list_ex (\<lambda>(i, dep). deps st ! i \<noteq> dep) (zip [0 ..< length newDeps] newDeps))
      in if \<not> depsChanged then
           \<lparr>returned = result st, state_after = st, fn_calls = [], onChange_calls = []\<rparr>
         else
           (let r = fn newDeps
            in \<lparr>returned = Some r,
                state_after = \<lparr>deps = newDeps, result = Some r\<rparr>,
                fn_calls = [newDeps],
                onChange_calls = (if has_onChange opts then [r] else [])\<rparr>))"

text \<open>\<^verbatim>\<open>memoizedFunction.updateDeps(newDeps)\<close>.\<close>

definition updateDeps :: "'d list \<Rightarrow> ('d, 'r) memo_state \<Rightarrow> ('d, 'r) memo_state" where
  "updateDeps newDeps st = st\<lparr>deps := newDeps\<rparr>"


section \<open>The range calculator\<close>

text \<open>
  The per-lane arrays \<^verbatim>\<open>endPerLane\<close> and \<^verbatim>\<open>startPerLane\<close> are written at the index
  \<^verbatim>\<open>item.lane\<close>, whatever it is. A write past the end extends a JavaScript array and leaves
  holes (\<^term>\<open>None\<close>); a write at a negative index, or at one that is no array index, sets
  a property and leaves the elements alone. \<^verbatim>\<open>some\<close> skips holes.
\<close>

definition js_array_set :: "'a option list \<Rightarrow> int \<Rightarrow> 'a \<Rightarrow> 'a option list" where
  "js_array_set xs i v =
     (if 0 \<le> i \<and> i < 2 ^ 32 - 1 then
        (if nat i < length xs then xs[nat i := Some v]
         else xs @ replicate (nat i - length xs) None @ [Some v])
      else xs)"

definition js_some :: "('a \<Rightarrow> bool) \<Rightarrow> 'a option list \<Rightarrow> bool" where
  "js_some p xs = list_ex (\<lambda>x. case x of None \<Rightarrow> False | Some y \<Rightarrow> p y) xs"

text \<open>
  The three loops of \<^verbatim>\<open>calculateRange\<close>. \<^verbatim>\<open>measurements[i]!\<close> is read with
  \<^const>\<open>item_at\<close>; where it is \<^verbatim>\<open>undefined\<close> the property access throws and the loop gives
  \<^term>\<open>None\<close>.
\<close>

function single_lane_forward ::
  "VirtualItem list \<Rightarrow> real \<Rightarrow> real \<Rightarrow> int \<Rightarrow> int \<Rightarrow> int option"
where
  "single_lane_forward measurements scrollOffset outerSize lastIndex endIdx =
     (if endIdx < lastIndex then
        (case item_at measurements endIdx of
           None \<Rightarrow> None
         | Some item \<Rightarrow>
             if end' item < scrollOffset + outerSize then
               single_lane_forward measurements scrollOffset outerSize lastIndex (endIdx + 1)
             else Some endIdx)
      else Some endIdx)"
  by pat_completeness auto
termination
  by (relation "measure (\<lambda>(ms, so, os, lastIndex, endIdx). nat (lastIndex - endIdx))") auto

function expand_forward ::
  "VirtualItem list \<Rightarrow> real \<Rightarrow> real \<Rightarrow> int \<Rightarrow> real option list \<Rightarrow> int \<Rightarrow> int option"
where
  "expand_forward measurements scrollOffset outerSize lastIndex endPerLane endIdx =
     (if endIdx < lastIndex \<and> js_some (\<lambda>pos. pos < scrollOffset + outerSize) endPerLane then
        (case item_at measurements endIdx of
           None \<Rightarrow> None
         | Some item \<Rightarrow>
             expand_forward measurements scrollOffset outerSize lastIndex
               (js_array_set endPerLane (lane item) (end' item)) (endIdx + 1))
      else Some endIdx)"
  by pat_completeness auto
termination
  by (relation "measure (\<lambda>(ms, so, os, lastIndex, epl, endIdx). nat (lastIndex - endIdx))")
    auto

function expand_backward ::
  "VirtualItem list \<Rightarrow> real \<Rightarrow> real option list \<Rightarrow> int \<Rightarrow> int option"
where
  "expand_backward measurements scrollOffset startPerLane startIdx =
     (if startIdx \<ge> 0 \<and> js_some (\<lambda>pos. pos \<ge> scrollOffset) startPerLane then
        (case item_at measurements startIdx of
           None \<Rightarrow> None
         | Some item \<Rightarrow>
             expand_backward measurements scrollOffset
               (js_array_set startPerLane (lane item) (start item)) (startIdx - 1))
      else Some startIdx)"
  by pat_completeness auto
termination
  by (relation "measure (\<lambda>(ms, so, spl, startIdx). nat (startIdx + 1))") auto

text \<open>
  \<^verbatim>\<open>function calculateRange({ measurements, outerSize, scrollOffset, lanes })\<close>.
  \<^term>\<open>None\<close>: the call does not return a range.
\<close>

definition calculateRange ::
  "VirtualItem list \<Rightarrow> real \<Rightarrow> real \<Rightarrow> int \<Rightarrow> index_range option"
where
  "calculateRange measurements outerSize scrollOffset lanes =
     (let lastIndex = int (length measurements) - 1;
          getOffset = (\<lambda>index. map_option start (item_at measurements index))
      in if int (length measurements) \<le> lanes then
           Some \<lparr>startIndex = 0, endIndex = lastIndex\<rparr>
         else
           (case findNearestBinarySearch 0 lastIndex getOffset scrollOffset of
              None \<Rightarrow> None
            | Some startIndex0 \<Rightarrow>
                if lanes = 1 then
                  (case single_lane_forward measurements scrollOffset outerSize lastIndex
                          startIndex0 of
                     None \<Rightarrow> None
                   | Some endIndex1 \<Rightarrow> Some \<lparr>startIndex = startIndex0, endIndex = endIndex1\<rparr>)
                else if lanes > 1 then
                  (case expand_forward measurements scrollOffset outerSize lastIndex
                          (replicate (nat lanes) (Some 0)) startIndex0 of
                     None \<Rightarrow> None
                   | Some endIndex1 \<Rightarrow>
                       (case expand_backward measurements scrollOffset
                               (replicate (nat lanes) (Some (scrollOffset + outerSize)))
                               startIndex0 of
                          None \<Rightarrow> None
                        | Some startIndex1 \<Rightarrow>
                            Some \<lparr>startIndex = max 0 (startIndex1 - js_rem startIndex1 lanes),
                                  endIndex = min lastIndex
                                    (endIndex1 + (lanes - 1 - js_rem endIndex1 lanes))\<rparr>))
                else Some \<lparr>startIndex = startIndex0, endIndex = startIndex0\<rparr>))"

text \<open>
  The compute function of the method \<^verbatim>\<open>Virtualizer.calculateRange\<close>: the range is
  \<^verbatim>\<open>null\<close> (the inner \<^term>\<open>None\<close>) unless there are measurements and the viewport has a
  positive size. The outer \<^term>\<open>None\<close>: the call does not return.
\<close>

definition calculateRange_fn ::
  "VirtualItem list \<Rightarrow> real \<Rightarrow> real \<Rightarrow> int \<Rightarrow> index_range option option"
where
  "calculateRange_fn measurements outerSize scrollOffset lanes =
     (if length measurements > 0 \<and> outerSize > 0 then
        (case calculateRange measurements outerSize scrollOffset lanes of
           None \<Rightarrow> None
         | Some r \<Rightarrow> Some (Some r))
      else Some None)"


section \<open>The Virtualizer class\<close>

datatype ScrollAlignment = AlignStart | AlignCenter | AlignEnd | AlignAuto

datatype ScrollBehavior = BehaviorAuto | BehaviorSmooth

record Rect =
  width :: real
  height :: real

text \<open>
  The scroll container: an element, with its \<^verbatim>\<open>scrollWidth\<close> and \<^verbatim>\<open>scrollHeight\<close>, or a
  window (\<^verbatim>\<open>'document' in this.scrollElement\<close>), with those of its document element.
\<close>

datatype ScrollElement =
  ElementNode (scrollWidth: real) (scrollHeight: real)
| WindowNode (scrollWidth: real) (scrollHeight: real)

text \<open>\<^verbatim>\<open>initialOffset?: number | (() => number)\<close>.\<close>

datatype InitialOffset = OffsetNumber real | OffsetThunk "unit \<Rightarrow> real"

text \<open>The options the modelled methods read, after \<^verbatim>\<open>setOptions\<close> has filled in the defaults.\<close>

record VirtualizerOptions =
  count :: int
  estimateSize :: "nat \<Rightarrow> real"
  overscan :: int
  horizontal :: bool
  paddingStart :: real
  paddingEnd :: real
  scrollPaddingStart :: real
  scrollPaddingEnd :: real
  initialOffset :: InitialOffset
  getItemKey :: "nat \<Rightarrow> Key"
  scrollMargin :: real
  gap :: real
  initialMeasurementsCache :: "VirtualItem list"
  initialRect :: Rect
  lanes :: int
  enabled :: bool

text \<open>
  What the engine sends out: a call of \<^verbatim>\<open>options.scrollToFn(offset, { behavior, adjustments })\<close>,
  a call of \<^verbatim>\<open>options.onChange(instance, sync)\<close>, a \<^verbatim>\<open>clearTimeout\<close> on the target window and
  the warning about smooth scrolling. They are appended to the field \<open>effects\<close> in the order
  they happen.
\<close>

datatype Effect =
  ScrollToFn real "real option" "ScrollBehavior option"
| Notify bool
| ClearTimeout nat
| WarnSmoothDynamic

text \<open>
  The fields of the instance. \<open>targetWindow\<close> says whether the field is non-null;
  \<open>elementsCache\<close> lists the keys that have a live element, with the element's identity;
  \<open>itemSizeCache\<close> is the \<^verbatim>\<open>Map<Key, number>\<close>. The predicate
  \<^verbatim>\<open>shouldAdjustScrollPositionOnItemSizeChange\<close> is given the item and the delta; its third
  argument, the instance, is not passed in the model.
\<close>

record Virtualizer =
  options :: VirtualizerOptions
  scrollElement :: "ScrollElement option"
  targetWindow :: bool
  scrollToIndexTimeoutId :: "nat option"
  measurementsCache :: "VirtualItem list"
  itemSizeCache :: "Key \<Rightarrow> real option"
  pendingMeasuredCacheIndexes :: "nat list"
  scrollRect :: "Rect option"
  scrollOffset :: "real option"
  scrollAdjustments :: real
  shouldAdjustScrollPositionOnItemSizeChange :: "(VirtualItem \<Rightarrow> real \<Rightarrow> bool) option"
  elementsCache :: "(Key \<times> nat) list"
  effects :: "Effect list"

definition notify :: "bool \<Rightarrow> Virtualizer \<Rightarrow> Virtualizer" where
  "notify sync v = v\<lparr>effects := effects v @ [Notify sync]\<rparr>"

text \<open>\<^verbatim>\<open>getSize\<close> and \<^verbatim>\<open>getScrollOffset\<close> return a number and update a field on the way.\<close>

definition getSize :: "Virtualizer \<Rightarrow> real \<times> Virtualizer" where
  "getSize v =
     (if \<not> enabled (options v) then (0, v\<lparr>scrollRect := None\<rparr>)
      else
        (let rect = (case scrollRect v of None \<Rightarrow> initialRect (options v) | Some r \<Rightarrow> r)
         in (if horizontal (options v) then width rect else height rect,
             v\<lparr>scrollRect := Some rect\<rparr>)))"

definition getScrollOffset :: "Virtualizer \<Rightarrow> real \<times> Virtualizer" where
  "getScrollOffset v =
     (if \<not> enabled (options v) then (0, v\<lparr>scrollOffset := None\<rparr>)
      else
        (let offset =
               (case scrollOffset v of
                  None \<Rightarrow>
                    (case initialOffset (options v) of
                       OffsetThunk f \<Rightarrow> f ()
                     | OffsetNumber n \<Rightarrow> n)
                | Some x \<Rightarrow> x)
         in (offset, v\<lparr>scrollOffset := Some offset\<rparr>)))"

definition scrollToOffset_internal ::
  "real \<Rightarrow> real option \<Rightarrow> ScrollBehavior option \<Rightarrow> Virtualizer \<Rightarrow> Virtualizer"
where
  \<comment> \<open>the private method \<^verbatim>\<open>_scrollToOffset\<close>\<close>
  "scrollToOffset_internal offset adjustments behavior v =
     v\<lparr>effects := effects v @ [ScrollToFn offset adjustments behavior]\<rparr>"


subsection \<open>The measurement cache\<close>

text \<open>\<^verbatim>\<open>Map.prototype.set\<close> on a map kept in insertion order.\<close>

fun map_set :: "'k \<Rightarrow> 'v \<Rightarrow> ('k \<times> 'v) list \<Rightarrow> ('k \<times> 'v) list" where
  "map_set k v [] = [(k, v)]"
| "map_set k v (p # ps) = (if fst p = k then (k, v) # ps else p # map_set k v ps)"

text \<open>
  The loop of \<^verbatim>\<open>getFurthestMeasurement\<close>, from \<^verbatim>\<open>m = index - 1\<close> down to \<open>0\<close>; the
  first argument is \<open>m + 1\<close>. \<open>found\<close> is \<^verbatim>\<open>furthestMeasurementsFound\<close> (its keys) and
  \<open>furthest\<close> is \<^verbatim>\<open>furthestMeasurements\<close>. \<^term>\<open>None\<close>: \<^verbatim>\<open>measurements[m]\<close> is
  \<^verbatim>\<open>undefined\<close> and reading its lane throws.
\<close>

fun furthest_loop ::
  "nat \<Rightarrow> VirtualItem list \<Rightarrow> int \<Rightarrow> int list \<Rightarrow> (int \<times> VirtualItem) list \<Rightarrow>
   (int \<times> VirtualItem) list option"
where
  "furthest_loop 0 measurements lns found furthest = Some furthest"
| "furthest_loop (Suc m) measurements lns found furthest =
     (case item_at measurements (int m) of
        None \<Rightarrow> None
      | Some measurement \<Rightarrow>
          if lane measurement \<in> set found then
            furthest_loop m measurements lns found furthest
          else
            (let previousFurthestMeasurement = map_of furthest (lane measurement);
                 furthest1 =
                   (if (case previousFurthestMeasurement of
                          None \<Rightarrow> True
                        | Some previous \<Rightarrow> end' measurement > end' previous)
                    then map_set (lane measurement) measurement furthest
                    else furthest);
                 found1 =
                   (if (case previousFurthestMeasurement of
                          None \<Rightarrow> False
                        | Some previous \<Rightarrow>
                            \<not> end' measurement > end' previous \<and>
                            end' measurement < end' previous)
                    then found @ [lane measurement]
                    else found)
             in if int (length found1) = lns then Some furthest1
                else furthest_loop m measurements lns found1 furthest1))"

text \<open>
  \<^verbatim>\<open>getFurthestMeasurement(measurements, index)\<close>. The outer \<^term>\<open>None\<close>: the call throws;
  \<^term>\<open>Some None\<close>: it returns \<^verbatim>\<open>undefined\<close>. The comparator of \<^verbatim>\<open>sort\<close> orders by
  \<^verbatim>\<open>end\<close>, then by \<^verbatim>\<open>index\<close>; the sort is stable, as \<^const>\<open>sort_key\<close> is.
\<close>

definition getFurthestMeasurement ::
  "Virtualizer \<Rightarrow> VirtualItem list \<Rightarrow> nat \<Rightarrow> VirtualItem option option"
where
  "getFurthestMeasurement v measurements i =
     (case furthest_loop i measurements (lanes (options v)) [] [] of
        None \<Rightarrow> None
      | Some furthestMeasurements \<Rightarrow>
          if int (length furthestMeasurements) = lanes (options v) then
            (case sort_key (\<lambda>a. (end' a, index a)) (map snd furthestMeasurements) of
               [] \<Rightarrow> Some None
             | a # _ \<Rightarrow> Some (Some a))
          else Some None)"

text \<open>
  \<^verbatim>\<open>measurements[i] = item\<close> on a dense array: inside the bounds it replaces the element, at
  the length it appends. Past the length JavaScript leaves holes in between; an
  \<^verbatim>\<open>Array<VirtualItem>\<close> is a list without holes here, so the model stops with \<^term>\<open>None\<close>.
\<close>

definition dense_set :: "'a list \<Rightarrow> nat \<Rightarrow> 'a \<Rightarrow> 'a list option" where
  "dense_set xs i x =
     (if i < length xs then Some (xs[i := x])
      else if i = length xs then Some (xs @ [x])
      else None)"

text \<open>
  One pass of the loop body of \<^verbatim>\<open>getMeasurements\<close>: the item for index \<open>i\<close>, given the
  measurements so far. \<^term>\<open>None\<close>: \<^verbatim>\<open>getFurthestMeasurement\<close> throws.
\<close>

definition measure_item ::
  "Virtualizer \<Rightarrow> real \<Rightarrow> real \<Rightarrow> (nat \<Rightarrow> Key) \<Rightarrow> VirtualItem list \<Rightarrow> nat \<Rightarrow>
   VirtualItem option"
where
  "measure_item v paddingStart0 scrollMargin0 getItemKey0 measurements i =
     (let key0 = getItemKey0 i
      in case (if lanes (options v) = 1 then Some (item_at measurements (int i - 1))
               else getFurthestMeasurement v measurements i) of
           None \<Rightarrow> None
         | Some furthestMeasurement \<Rightarrow>
             (let start0 =
                    (case furthestMeasurement of
                       Some f \<Rightarrow> end' f + gap (options v)
                     | None \<Rightarrow> paddingStart0 + scrollMargin0);
                  size0 =
                    (case itemSizeCache v key0 of
                       Some measuredSize \<Rightarrow> measuredSize
                     | None \<Rightarrow> estimateSize (options v) i);
                  end0 = start0 + size0;
                  lane0 =
                    (case furthestMeasurement of
                       Some f \<Rightarrow> lane f
                     | None \<Rightarrow> js_rem (int i) (lanes (options v)))
              in Some \<lparr>key = key0, index = i, start = start0, end' = end0, size' = size0,
                       lane = lane0\<rparr>))"

text \<open>The loop \<^verbatim>\<open>for (let i = min; i < count; i++)\<close>.\<close>

function measure_loop ::
  "Virtualizer \<Rightarrow> int \<Rightarrow> real \<Rightarrow> real \<Rightarrow> (nat \<Rightarrow> Key) \<Rightarrow> nat \<Rightarrow> VirtualItem list \<Rightarrow>
   VirtualItem list option"
where
  "measure_loop v count0 paddingStart0 scrollMargin0 getItemKey0 i measurements =
     (if int i < count0 then
        (case measure_item v paddingStart0 scrollMargin0 getItemKey0 measurements i of
           None \<Rightarrow> None
         | Some item \<Rightarrow>
             (case dense_set measurements i item of
                None \<Rightarrow> None
              | Some measurements1 \<Rightarrow>
                  measure_loop v count0 paddingStart0 scrollMargin0 getItemKey0 (i + 1)
                    measurements1))
      else Some measurements)"
  by pat_completeness auto
termination
  by (relation "measure (\<lambda>(v, count0, ps, sm, gk, i, ms). nat (count0 - int i))") auto

text \<open>\<^verbatim>\<open>Math.min(...this.pendingMeasuredCacheIndexes)\<close>, or \<open>0\<close> when there is none.\<close>

definition min_pending :: "nat list \<Rightarrow> nat" where
  "min_pending pending = (case pending of [] \<Rightarrow> 0 | p # ps \<Rightarrow> fold min ps p)"

text \<open>
  The compute function of \<^verbatim>\<open>getMeasurements\<close>. Its first argument, the object made by
  \<^verbatim>\<open>getMeasurementOptions\<close>, is given as its five fields. Its second argument,
  \<^verbatim>\<open>itemSizeCache\<close>, is the very object \<^verbatim>\<open>this.itemSizeCache\<close> (the dependency tuple is
  evaluated right before the call), so the sizes stored from the initial measurements are seen
  by the loop; the model reads the field. The result is the measurement sequence and the
  instance afterwards; \<^term>\<open>None\<close> as in \<^const>\<open>measure_item\<close> and \<^const>\<open>dense_set\<close>.
\<close>

definition with_initial_cache :: "Virtualizer \<Rightarrow> Virtualizer" where
  "with_initial_cache v =
     (if length (measurementsCache v) = 0 then
        v\<lparr>measurementsCache := initialMeasurementsCache (options v),
          itemSizeCache :=
            fold (\<lambda>item m. m(key item \<mapsto> size' item)) (initialMeasurementsCache (options v))
              (itemSizeCache v)\<rparr>
      else v)"

definition getMeasurements_fn ::
  "int \<Rightarrow> real \<Rightarrow> real \<Rightarrow> (nat \<Rightarrow> Key) \<Rightarrow> bool \<Rightarrow> Virtualizer \<Rightarrow>
   (VirtualItem list \<times> Virtualizer) option"
where
  "getMeasurements_fn count0 paddingStart0 scrollMargin0 getItemKey0 enabled0 v =
     (if \<not> enabled0 then
        Some ([], v\<lparr>measurementsCache := [], itemSizeCache := Map.empty\<rparr>)
      else
        (let v1 = with_initial_cache v;
             min0 = min_pending (pendingMeasuredCacheIndexes v1);
             v2 = v1\<lparr>pendingMeasuredCacheIndexes := []\<rparr>;
             measurements = take min0 (measurementsCache v2)
         in case measure_loop v2 count0 paddingStart0 scrollMargin0 getItemKey0 min0
                   measurements of
              None \<Rightarrow> None
            | Some measurements1 \<Rightarrow>
                Some (measurements1, v2\<lparr>measurementsCache := measurements1\<rparr>)))"


subsection \<open>Resizing an item\<close>

text \<open>\<^verbatim>\<open>resizeItem(index, size)\<close>.\<close>

definition resizeItem :: "int \<Rightarrow> real \<Rightarrow> Virtualizer \<Rightarrow> Virtualizer" where
  "resizeItem i sz v =
     (case item_at (measurementsCache v) i of
        None \<Rightarrow> v
      | Some item \<Rightarrow>
          (let itemSize = (case itemSizeCache v (key item) of Some s \<Rightarrow> s | None \<Rightarrow> size' item);
               delta = sz - itemSize
           in if delta \<noteq> 0 then
                (let (adjust, v1) =
                       (case shouldAdjustScrollPositionOnItemSizeChange v of
                          Some should \<Rightarrow> (should item delta, v)
                        | None \<Rightarrow>
                            (case getScrollOffset v of
                               (offset, v0) \<Rightarrow> (start item < offset + scrollAdjustments v0, v0)));
                     v2 =
                       (if adjust then
                          (case getScrollOffset v1 of
                             (offset, v0) \<Rightarrow>
                               scrollToOffset_internal offset
                                 (Some (scrollAdjustments v0 + delta)) None
                                 (v0\<lparr>scrollAdjustments := scrollAdjustments v0 + delta\<rparr>))
                        else v1);
                     v3 = v2\<lparr>pendingMeasuredCacheIndexes :=
                                pendingMeasuredCacheIndexes v2 @ [index item],
                              itemSizeCache := (itemSizeCache v2)(key item \<mapsto> sz)\<rparr>
                 in notify False v3)
              else v))"

text \<open>\<^verbatim>\<open>measure()\<close>.\<close>

definition measure_all :: "Virtualizer \<Rightarrow> Virtualizer" where
  "measure_all v = notify False (v\<lparr>itemSizeCache := Map.empty\<rparr>)"


subsection \<open>The scroll position controller\<close>

definition isDynamicMode :: "Virtualizer \<Rightarrow> bool" where
  "isDynamicMode v = (length (elementsCache v) > 0)"

definition cancelScrollToIndex :: "Virtualizer \<Rightarrow> Virtualizer" where
  "cancelScrollToIndex v =
     (case scrollToIndexTimeoutId v of
        Some timeoutId \<Rightarrow>
          if targetWindow v then
            v\<lparr>effects := effects v @ [ClearTimeout timeoutId], scrollToIndexTimeoutId := None\<rparr>
          else v
      | None \<Rightarrow> v)"

definition warn_smooth :: "ScrollBehavior option \<Rightarrow> Virtualizer \<Rightarrow> Virtualizer" where
  "warn_smooth behavior v =
     (if behavior = Some BehaviorSmooth \<and> isDynamicMode v then
        v\<lparr>effects := effects v @ [WarnSmoothDynamic]\<rparr>
      else v)"

definition scrollSize :: "Virtualizer \<Rightarrow> real" where
  "scrollSize v =
     (case scrollElement v of
        None \<Rightarrow> 0
      | Some el \<Rightarrow> if horizontal (options v) then scrollWidth el else scrollHeight el)"

text \<open>\<^verbatim>\<open>getOffsetForAlignment(toOffset, align, itemSize = 0)\<close>.\<close>

definition getOffsetForAlignment ::
  "real \<Rightarrow> ScrollAlignment \<Rightarrow> real \<Rightarrow> Virtualizer \<Rightarrow> real \<times> Virtualizer"
where
  "getOffsetForAlignment toOffset align itemSize v =
     (case getSize v of
        (sz, v1) \<Rightarrow>
          (case getScrollOffset v1 of
             (offset, v2) \<Rightarrow>
               (let align1 =
                      (if align = AlignAuto then
                         (if toOffset \<ge> offset + sz then AlignEnd else AlignStart)
                       else align);
                    toOffset1 =
                      (if align1 = AlignCenter then toOffset + (itemSize - sz) / 2
                       else if align1 = AlignEnd then toOffset - sz
                       else toOffset);
                    maxOffset = scrollSize v2 - sz
                in (max (min maxOffset toOffset1) 0, v2))))"

text \<open>
  \<^verbatim>\<open>getOffsetForIndex(index, align = 'auto')\<close>: \<^verbatim>\<open>undefined\<close> or the pair of the offset and
  the alignment it was resolved to.
\<close>

definition getOffsetForIndex ::
  "int \<Rightarrow> ScrollAlignment \<Rightarrow> Virtualizer \<Rightarrow> (real \<times> ScrollAlignment) option \<times> Virtualizer"
where
  "getOffsetForIndex i align v =
     (let i1 = max 0 (min i (count (options v) - 1))
      in case item_at (measurementsCache v) i1 of
           None \<Rightarrow> (None, v)
         | Some item \<Rightarrow>
             (case getSize v of
                (sz, v1) \<Rightarrow>
                  (case getScrollOffset v1 of
                     (offset, v2) \<Rightarrow>
                       (case (if align = AlignAuto then
                                (if end' item \<ge> offset + sz - scrollPaddingEnd (options v2)
                                 then Some AlignEnd
                                 else if start item \<le> offset + scrollPaddingStart (options v2)
                                 then Some AlignStart
                                 else None)
                              else Some align) of
                          None \<Rightarrow> (Some (offset, align), v2)
                        | Some align1 \<Rightarrow>
                            (let toOffset =
                                   (if align1 = AlignEnd then
                                      end' item + scrollPaddingEnd (options v2)
                                    else start item - scrollPaddingStart (options v2))
                             in case getOffsetForAlignment toOffset align1 (size' item) v2 of
                                  (r, v3) \<Rightarrow> (Some (r, align1), v3))))))"

text \<open>
  \<^verbatim>\<open>scrollToOffset(toOffset, { align = 'start', behavior })\<close> and
  \<^verbatim>\<open>scrollBy(delta, { behavior })\<close>. An option left out is \<^term>\<open>None\<close>.
\<close>

definition scrollToOffset ::
  "real \<Rightarrow> ScrollAlignment option \<Rightarrow> ScrollBehavior option \<Rightarrow> Virtualizer \<Rightarrow> Virtualizer"
where
  "scrollToOffset toOffset align behavior v =
     (let v1 = warn_smooth behavior (cancelScrollToIndex v)
      in case getOffsetForAlignment toOffset
                (case align of None \<Rightarrow> AlignStart | Some a \<Rightarrow> a) 0 v1 of
           (offset, v2) \<Rightarrow> scrollToOffset_internal offset None behavior v2)"

definition scrollBy :: "real \<Rightarrow> ScrollBehavior option \<Rightarrow> Virtualizer \<Rightarrow> Virtualizer" where
  "scrollBy delta behavior v =
     (let v1 = warn_smooth behavior (cancelScrollToIndex v)
      in case getScrollOffset v1 of
           (offset, v2) \<Rightarrow> scrollToOffset_internal (offset + delta) None behavior v2)"

text \<open>\<^verbatim>\<open>defaultKeyExtractor\<close>: the index itself, as a number.\<close>

definition defaultKeyExtractor :: "nat \<Rightarrow> Key" where
  "defaultKeyExtractor i = KeyNumber (real i)"

text \<open>The instance right after construction: the field initialisers of the class.\<close>

definition new_Virtualizer :: "VirtualizerOptions \<Rightarrow> Virtualizer" where
  "new_Virtualizer opts =
     \<lparr>options = opts, scrollElement = None, targetWindow = False, scrollToIndexTimeoutId = None,
      measurementsCache = [], itemSizeCache = Map.empty, pendingMeasuredCacheIndexes = [],
      scrollRect = None, scrollOffset = None, scrollAdjustments = 0,
      shouldAdjustScrollPositionOnItemSizeChange = None, elementsCache = [], effects = []\<rparr>"


subsection \<open>The calls that reach the measurement cache\<close>

text \<open>
  \<^verbatim>\<open>measurementsCache\<close> is assigned only by the compute function of \<^verbatim>\<open>getMeasurements\<close>,
  and \<^verbatim>\<open>pendingMeasuredCacheIndexes\<close> only by that function, by the compute function of
  \<^verbatim>\<open>getMeasurementOptions\<close> (which empties it) and by \<^verbatim>\<open>resizeItem\<close>. The state of the
  engine is the instance together with the dependency tuple that the memoized
  \<^verbatim>\<open>getMeasurementOptions\<close> holds (\<^term>\<open>None\<close> before its first call). A step is one call:

  \<^item> any method that writes neither field (\<^verbatim>\<open>setOptions\<close>, \<^verbatim>\<open>measure\<close>, the scroll methods,
    the observer callbacks): it may change everything else;
  \<^item> \<^verbatim>\<open>resizeItem\<close>;
  \<^item> \<^verbatim>\<open>getMeasurements\<close> when \<^verbatim>\<open>getMeasurementOptions\<close> recomputes: the pending indexes
    are emptied, a new options object is made, so the measurements are recomputed. The memo
    compares \<^verbatim>\<open>getItemKey\<close> by identity, so this step is allowed for every tuple, equal to
    the held one or not;
  \<^item> \<^verbatim>\<open>getMeasurements\<close> when the held tuple is the current one and the measurements are
    recomputed (the size map is a new object);
  \<^item> \<^verbatim>\<open>getMeasurements\<close> when nothing changed: the sequence of the latest run, which is
    \<^verbatim>\<open>measurementsCache\<close>, is returned.
\<close>

type_synonym MeasurementOptions = "int \<times> real \<times> real \<times> (nat \<Rightarrow> Key) \<times> bool"

definition measurement_deps :: "Virtualizer \<Rightarrow> MeasurementOptions" where
  "measurement_deps v =
     (count (options v), paddingStart (options v), scrollMargin (options v),
      getItemKey (options v), enabled (options v))"

datatype call = OtherCall | ResizeItem int real | GetMeasurements "VirtualItem list"

inductive engine_step ::
  "MeasurementOptions option \<times> Virtualizer \<Rightarrow> call \<Rightarrow>
   MeasurementOptions option \<times> Virtualizer \<Rightarrow> bool"
where
  other_call:
    "measurementsCache v' = measurementsCache v \<Longrightarrow>
     pendingMeasuredCacheIndexes v' = pendingMeasuredCacheIndexes v \<Longrightarrow>
     engine_step (d, v) OtherCall (d, v')"
| resize_call:
    "engine_step (d, v) (ResizeItem i sz) (d, resizeItem i sz v)"
| measurements_new_options:
    "measurement_deps v = (c, ps, sm, gk, en) \<Longrightarrow>
     getMeasurements_fn c ps sm gk en (v\<lparr>pendingMeasuredCacheIndexes := []\<rparr>) = Some (ms, v') \<Longrightarrow>
     engine_step (d, v) (GetMeasurements ms) (Some (c, ps, sm, gk, en), v')"
| measurements_rerun:
    "d = Some (c, ps, sm, gk, en) \<Longrightarrow> measurement_deps v = (c, ps, sm, gk, en) \<Longrightarrow>
     getMeasurements_fn c ps sm gk en v = Some (ms, v') \<Longrightarrow>
     engine_step (d, v) (GetMeasurements ms) (d, v')"
| measurements_cached:
    "d = Some (measurement_deps v) \<Longrightarrow>
     engine_step (d, v) (GetMeasurements (measurementsCache v)) (d, v)"

inductive reachable :: "MeasurementOptions option \<times> Virtualizer \<Rightarrow> bool" where
  reachable_new: "reachable (None, new_Virtualizer opts)"
| reachable_step: "reachable s \<Longrightarrow> engine_step s a s' \<Longrightarrow> reachable s'"

text \<open>
  What every reachable state satisfies: each cached item ends where it starts plus its size
  and sits at its own index, each pending index is the index of a cached item, and a
  non-empty cache was computed with \<^verbatim>\<open>enabled\<close> true.
\<close>

definition cache_invariant :: "MeasurementOptions option \<times> Virtualizer \<Rightarrow> bool" where
  "cache_invariant s =
     (case s of (d, v) \<Rightarrow>
        (\<forall>j < length (measurementsCache v).
           end' (measurementsCache v ! j) =
             start (measurementsCache v ! j) + size' (measurementsCache v ! j) \<and>
           index (measurementsCache v ! j) = j) \<and>
        (\<forall>p \<in> set (pendingMeasuredCacheIndexes v). p < length (measurementsCache v)) \<and>
        (measurementsCache v \<noteq> [] \<longrightarrow> (\<exists>c ps sm gk. d = Some (c, ps, sm, gk, True))))"





section \<open>Example data\<close>

text \<open>
  Six items with an estimated size of 50 pixels and the defaults of \<^verbatim>\<open>setOptions\<close>; the
  instance after its first \<^verbatim>\<open>getMeasurements\<close>; the same scrolled to offset 200; with a
  scroll element of 300 pixels and a viewport of 100 pixels attached; and, without a scroll
  element, with an initial offset of 100 and an initial viewport of 100 pixels.
\<close>

definition example_options :: VirtualizerOptions where
  "example_options =
     \<lparr>count = 6, estimateSize = (\<lambda>i. 50), overscan = 1, horizontal = False,
      paddingStart = 0, paddingEnd = 0, scrollPaddingStart = 0, scrollPaddingEnd = 0,
      initialOffset = OffsetNumber 0, getItemKey = defaultKeyExtractor, scrollMargin = 0,
      gap = 0, initialMeasurementsCache = [], initialRect = \<lparr>width = 0, height = 0\<rparr>,
      lanes = 1, enabled = True\<rparr>"

definition uniform_item :: "nat \<Rightarrow> VirtualItem" where
  "uniform_item i =
     \<lparr>key = KeyNumber (real i), index = i, start = 50 * real i, end' = 50 * real i + 50,
      size' = 50, lane = 0\<rparr>"

definition example_measured :: Virtualizer where
  "example_measured =
     (new_Virtualizer example_options)
       \<lparr>measurementsCache := map uniform_item [0, 1, 2, 3, 4, 5]\<rparr>"

definition example_scrolled :: Virtualizer where
  "example_scrolled = example_measured\<lparr>scrollOffset := Some 200\<rparr>"

definition example_attached :: Virtualizer where
  "example_attached =
     example_measured\<lparr>scrollElement := Some (ElementNode 100 300),
                       scrollRect := Some \<lparr>width = 100, height = 100\<rparr>,
                       scrollOffset := Some 0\<rparr>"

definition example_restored :: Virtualizer where
  "example_restored =
     (new_Virtualizer
        (example_options\<lparr>initialOffset := OffsetNumber 100,
                         initialRect := \<lparr>width = 100, height = 100\<rparr>\<rparr>))
       \<lparr>measurementsCache := map uniform_item [0, 1, 2, 3, 4, 5]\<rparr>"


text \<open>
  The attached instance scrolled to offset 20; the instance scrolled to 200 after item 1 was
  resized from 50 to 80 pixels; and the measurements expected after that resize.
\<close>

definition example_midway :: Virtualizer where
  "example_midway = example_attached\<lparr>scrollOffset := Some 20\<rparr>"

definition example_resized :: Virtualizer where
  "example_resized = resizeItem 1 80 example_scrolled"

definition example_second_run :: "VirtualItem list" where
  "example_second_run =
     [uniform_item 0,
      \<lparr>key = KeyNumber 1, index = 1, start = 50, end' = 130, size' = 80, lane = 0\<rparr>,
      \<lparr>key = KeyNumber 2, index = 2, start = 130, end' = 180, size' = 50, lane = 0\<rparr>,
      \<lparr>key = KeyNumber 3, index = 3, start = 180, end' = 230, size' = 50, lane = 0\<rparr>,
      \<lparr>key = KeyNumber 4, index = 4, start = 230, end' = 280, size' = 50, lane = 0\<rparr>,
      \<lparr>key = KeyNumber 5, index = 5, start = 280, end' = 330, size' = 50, lane = 0\<rparr>]"

text \<open>The measurements of the six items in two lanes.\<close>

definition example_two_lanes :: "VirtualItem list" where
  "example_two_lanes =
     [\<lparr>key = KeyNumber 0, index = 0, start = 0, end' = 50, size' = 50, lane = 0\<rparr>,
      \<lparr>key = KeyNumber 1, index = 1, start = 0, end' = 50, size' = 50, lane = 1\<rparr>,
      \<lparr>key = KeyNumber 2, index = 2, start = 50, end' = 100, size' = 50, lane = 0\<rparr>,
      \<lparr>key = KeyNumber 3, index = 3, start = 50, end' = 100, size' = 50, lane = 1\<rparr>,
      \<lparr>key = KeyNumber 4, index = 4, start = 100, end' = 150, size' = 50, lane = 0\<rparr>,
      \<lparr>key = KeyNumber 5, index = 5, start = 100, end' = 150, size' = 50, lane = 1\<rparr>]"





declare push_indexes.simps [simp del] single_lane_forward.simps [simp del]
  expand_forward.simps [simp del] expand_backward.simps [simp del] measure_loop.simps [simp del]


section \<open>Properties of the binary search\<close>

lemma half_or_zero_floor:
  assumes "0 \<le> s" and "s < 2 ^ 32"
  shows "half_or_zero s = s div 2"
proof -
  have "0 \<le> s div 2" and "s div 2 < 2 ^ 31"
    using assms by simp_all
  then have "(s div 2 + 2 ^ 31) mod 2 ^ 32 = s div 2 + 2 ^ 31"
    by simp
  then show ?thesis
    using assms(1) by (simp add: half_or_zero_def ToInt32_def)
qed

lemma findNearestBinarySearch_invariant:
  assumes srt: "sorted xs" and nomatch: "v \<notin> set xs" and len: "length xs < 2 ^ 31"
  shows "0 \<le> low \<Longrightarrow> high < int (length xs) \<Longrightarrow> low \<le> high + 1 \<Longrightarrow>
    (\<forall>i. 0 \<le> i \<and> i < low \<longrightarrow> xs ! nat i < v) \<Longrightarrow>
    (\<forall>i. high < i \<and> i < int (length xs) \<longrightarrow> v < xs ! nat i) \<Longrightarrow>
    \<exists>r. findNearestBinarySearch low high (item_at xs) v = Some r \<and> 0 \<le> r \<and>
      (\<forall>i. r < i \<and> i < int (length xs) \<longrightarrow> v < xs ! nat i) \<and>
      (if \<exists>i. 0 \<le> i \<and> i < int (length xs) \<and> xs ! nat i \<le> v
       then r < int (length xs) \<and> xs ! nat r \<le> v else r = 0)"
proof (induction "nat (high - low + 1)" arbitrary: low high rule: less_induct)
  case less
  show ?case
  proof (cases "low \<le> high")
    case False
    with less.prems have eq: "low = high + 1" by simp
    show ?thesis
    proof (cases "low > 0")
      case True
      have r: "findNearestBinarySearch low high (item_at xs) v = Some (low - 1)"
        using False True by (subst findNearestBinarySearch.simps) simp
      have "xs ! nat (low - 1) < v" using less.prems(4) True by simp
      moreover have "\<forall>i. low - 1 < i \<and> i < int (length xs) \<longrightarrow> v < xs ! nat i"
        using less.prems(5) eq by simp
      moreover have "low - 1 < int (length xs)" using less.prems(2) eq by simp
      ultimately show ?thesis using r True by auto
    next
      case F2: False
      with less.prems have l0: "low = 0" by simp
      have r: "findNearestBinarySearch low high (item_at xs) v = Some 0"
        using False F2 by (subst findNearestBinarySearch.simps) simp
      have all: "\<forall>i. 0 \<le> i \<and> i < int (length xs) \<longrightarrow> v < xs ! nat i"
        using less.prems(5) eq l0 by simp
      then have "\<not> (\<exists>i. 0 \<le> i \<and> i < int (length xs) \<and> xs ! nat i \<le> v)"
        by (meson not_less)
      then show ?thesis using r all by auto
    qed
  next
    case True
    define mid where "mid = (low + high) div 2"
    have sum: "0 \<le> low + high" "low + high < 2 ^ 32"
      using less.prems(1,2) True len by simp_all
    have hz: "half_or_zero (low + high) = mid"
      unfolding mid_def by (rule half_or_zero_floor[OF sum])
    have midr: "low \<le> mid" "mid \<le> high"
      using True by (simp_all add: mid_def)
    have midx: "0 \<le> mid" "mid < int (length xs)"
      using midr less.prems(1,2) by simp_all
    have at: "item_at xs mid = Some (xs ! nat mid)"
      using midx by (simp add: item_at_def)
    have ne: "xs ! nat mid \<noteq> v"
      using nomatch midx by (metis nat_less_iff nth_mem)
    show ?thesis
    proof (cases "xs ! nat mid < v")
      case lt: True
      have step: "findNearestBinarySearch low high (item_at xs) v =
          findNearestBinarySearch (mid + 1) high (item_at xs) v"
        using True lt by (subst findNearestBinarySearch.simps) (simp add: hz at)
      have inv: "\<forall>i. 0 \<le> i \<and> i < mid + 1 \<longrightarrow> xs ! nat i < v"
      proof (intro allI impI)
        fix i assume i: "0 \<le> i \<and> i < mid + 1"
        then have "nat i \<le> nat mid" "nat mid < length xs" using midx by linarith+
        then have "xs ! nat i \<le> xs ! nat mid" using srt by (simp add: sorted_nth_mono)
        then show "xs ! nat i < v" using lt by simp
      qed
      have "nat (high - (mid + 1) + 1) < nat (high - low + 1)"
        using midr by simp
      from less.hyps[OF this _ less.prems(2) _ inv less.prems(5)] midr midx
      show ?thesis unfolding step by simp
    next
      case nlt: False
      then have gt: "v < xs ! nat mid" using ne by simp
      have step: "findNearestBinarySearch low high (item_at xs) v =
          findNearestBinarySearch low (mid - 1) (item_at xs) v"
        using True nlt gt by (subst findNearestBinarySearch.simps) (simp add: hz at)
      have inv: "\<forall>i. mid - 1 < i \<and> i < int (length xs) \<longrightarrow> v < xs ! nat i"
      proof (intro allI impI)
        fix i assume i: "mid - 1 < i \<and> i < int (length xs)"
        then have "nat mid \<le> nat i" "nat i < length xs" using midx by linarith+
        then have "xs ! nat mid \<le> xs ! nat i" using srt by (simp add: sorted_nth_mono)
        then show "v < xs ! nat i" using gt by simp
      qed
      have "nat (mid - 1 - low + 1) < nat (high - low + 1)"
        using midr by simp
      from less.hyps[OF this less.prems(1) _ _ less.prems(4) inv] midr midx
      show ?thesis unfolding step by simp
    qed
  qed
qed

text \<open>
  Claim C5. The binary search has floor semantics. For a sorted sequence \<open>xs\<close> of values
  (of fewer than \<open>2^31\<close> elements, so that the index arithmetic stays inside ToInt32) and a
  target \<open>v\<close> that matches no element exactly, the search over the indices
  \<open>0 .. length xs - 1\<close> returns an index \<open>r\<close>; when some value is \<open>\<le> v\<close>, \<open>r\<close> is the
  highest index whose value is \<open>\<le> v\<close> (its value is \<open>\<le> v\<close> and every later value is
  \<open>> v\<close>); when the target is below every value, \<open>r = 0\<close>. Concretely, over the sorted starts
  \<open>[0, 10, 20, 30]\<close> the queries \<open>15\<close>, \<open>5\<close> and \<open>-1\<close> return \<open>1\<close>, \<open>0\<close> and \<open>0\<close>.
\<close>

theorem findNearestBinarySearch_floor:
  "(sorted xs \<and> length xs < 2 ^ 31 \<and> v \<notin> set xs \<longrightarrow>
      (\<exists>r. findNearestBinarySearch 0 (int (length xs) - 1) (item_at xs) v = Some r \<and>
         (if \<exists>i. 0 \<le> i \<and> i < int (length xs) \<and> xs ! nat i \<le> v
          then 0 \<le> r \<and> r < int (length xs) \<and> xs ! nat r \<le> v \<and>
               (\<forall>j. r < j \<and> j < int (length xs) \<longrightarrow> v < xs ! nat j)
          else r = 0))) \<and>
   findNearestBinarySearch 0 3 (item_at [0, 10, 20, 30]) 15 = Some 1 \<and>
   findNearestBinarySearch 0 3 (item_at [0, 10, 20, 30]) 5 = Some 0 \<and>
   findNearestBinarySearch 0 3 (item_at [0, 10, 20, 30]) (- 1) = Some 0"
proof (intro conjI impI)
  assume a: "sorted xs \<and> length xs < 2 ^ 31 \<and> v \<notin> set xs"
  then have "\<exists>r. findNearestBinarySearch 0 (int (length xs) - 1) (item_at xs) v = Some r \<and> 0 \<le> r \<and>
      (\<forall>i. r < i \<and> i < int (length xs) \<longrightarrow> v < xs ! nat i) \<and>
      (if \<exists>i. 0 \<le> i \<and> i < int (length xs) \<and> xs ! nat i \<le> v
       then r < int (length xs) \<and> xs ! nat r \<le> v else r = 0)"
    by (intro findNearestBinarySearch_invariant) simp_all
  then obtain r where r: "findNearestBinarySearch 0 (int (length xs) - 1) (item_at xs) v = Some r"
      "0 \<le> r" "\<forall>i. r < i \<and> i < int (length xs) \<longrightarrow> v < xs ! nat i"
      "if \<exists>i. 0 \<le> i \<and> i < int (length xs) \<and> xs ! nat i \<le> v
       then r < int (length xs) \<and> xs ! nat r \<le> v else r = 0"
    by blast
  show "\<exists>r. findNearestBinarySearch 0 (int (length xs) - 1) (item_at xs) v = Some r \<and>
         (if \<exists>i. 0 \<le> i \<and> i < int (length xs) \<and> xs ! nat i \<le> v
          then 0 \<le> r \<and> r < int (length xs) \<and> xs ! nat r \<le> v \<and>
               (\<forall>j. r < j \<and> j < int (length xs) \<longrightarrow> v < xs ! nat j)
          else r = 0)"
  proof (intro exI conjI)
    show "findNearestBinarySearch 0 (int (length xs) - 1) (item_at xs) v = Some r" by (rule r(1))
    show "if \<exists>i. 0 \<le> i \<and> i < int (length xs) \<and> xs ! nat i \<le> v
          then 0 \<le> r \<and> r < int (length xs) \<and> xs ! nat r \<le> v \<and>
               (\<forall>j. r < j \<and> j < int (length xs) \<longrightarrow> v < xs ! nat j)
          else r = 0"
      using r(2,3,4) by (simp split: if_splits)
  qed
next
  show "findNearestBinarySearch 0 3 (item_at [0, 10, 20, 30]) 15 = Some 1" by code_simp
next
  show "findNearestBinarySearch 0 3 (item_at [0, 10, 20, 30]) 5 = Some 0" by code_simp
next
  show "findNearestBinarySearch 0 3 (item_at [0, 10, 20, 30]) (- 1) = Some 0" by code_simp
qed

theorem findNearestBinarySearch_floor_witness:
  "(sorted [0, 10, 20, 30 :: real] \<and> length [0, 10, 20, 30 :: real] < 2 ^ 31 \<and>
    (15 :: real) \<notin> set [0, 10, 20, 30]) \<and>
   (\<exists>r. findNearestBinarySearch 0 (int (length [0, 10, 20, 30 :: real]) - 1)
           (item_at [0, 10, 20, 30]) 15 = Some r \<and>
      (if \<exists>i. 0 \<le> i \<and> i < int (length [0, 10, 20, 30 :: real]) \<and>
               [0, 10, 20, 30 :: real] ! nat i \<le> 15
       then 0 \<le> r \<and> r < int (length [0, 10, 20, 30 :: real]) \<and>
            [0, 10, 20, 30 :: real] ! nat r \<le> 15 \<and>
            (\<forall>j. r < j \<and> j < int (length [0, 10, 20, 30 :: real]) \<longrightarrow>
                 15 < [0, 10, 20, 30 :: real] ! nat j)
       else r = 0))"
proof (rule conjI)
  show h: "sorted [0, 10, 20, 30 :: real] \<and> length [0, 10, 20, 30 :: real] < 2 ^ 31 \<and>
      (15 :: real) \<notin> set [0, 10, 20, 30]"
    by simp
  from findNearestBinarySearch_floor[of "[0, 10, 20, 30]" 15]
  have "sorted [0, 10, 20, 30 :: real] \<and> length [0, 10, 20, 30 :: real] < 2 ^ 31 \<and>
      (15 :: real) \<notin> set [0, 10, 20, 30] \<longrightarrow>
   (\<exists>r. findNearestBinarySearch 0 (int (length [0, 10, 20, 30 :: real]) - 1)
           (item_at [0, 10, 20, 30]) 15 = Some r \<and>
      (if \<exists>i. 0 \<le> i \<and> i < int (length [0, 10, 20, 30 :: real]) \<and>
               [0, 10, 20, 30 :: real] ! nat i \<le> 15
       then 0 \<le> r \<and> r < int (length [0, 10, 20, 30 :: real]) \<and>
            [0, 10, 20, 30 :: real] ! nat r \<le> 15 \<and>
            (\<forall>j. r < j \<and> j < int (length [0, 10, 20, 30 :: real]) \<longrightarrow>
                 15 < [0, 10, 20, 30 :: real] ! nat j)
       else r = 0))"
    by (rule conjunct1)
  with h show "\<exists>r. findNearestBinarySearch 0 (int (length [0, 10, 20, 30 :: real]) - 1)
           (item_at [0, 10, 20, 30]) 15 = Some r \<and>
      (if \<exists>i. 0 \<le> i \<and> i < int (length [0, 10, 20, 30 :: real]) \<and>
               [0, 10, 20, 30 :: real] ! nat i \<le> 15
       then 0 \<le> r \<and> r < int (length [0, 10, 20, 30 :: real]) \<and>
            [0, 10, 20, 30 :: real] ! nat r \<le> 15 \<and>
            (\<forall>j. r < j \<and> j < int (length [0, 10, 20, 30 :: real]) \<longrightarrow>
                 15 < [0, 10, 20, 30 :: real] ! nat j)
       else r = 0)"
    by (rule mp[rotated])
qed


section \<open>Properties of the range calculator\<close>

lemma item_at_map: "map_option f (item_at xs i) = item_at (map f xs) i"
proof (cases "0 \<le> i \<and> i < int (length xs)")
  case True
  then have "nat i < length xs" by linarith
  then show ?thesis using True by (simp add: item_at_def)
next
  case False
  then show ?thesis by (auto simp: item_at_def)
qed

lemma findNearestBinarySearch_bounds:
  assumes len: "length xs < 2 ^ 31" and hi0: "0 \<le> hi0" "hi0 < int (length xs)"
  shows "0 \<le> low \<Longrightarrow> high \<le> hi0 \<Longrightarrow> low \<le> high + 1 \<Longrightarrow>
    \<exists>r. findNearestBinarySearch low high (item_at xs) v = Some r \<and> 0 \<le> r \<and> r \<le> hi0"
proof (induction "nat (high - low + 1)" arbitrary: low high rule: less_induct)
  case less
  show ?case
  proof (cases "low \<le> high")
    case False
    then have "findNearestBinarySearch low high (item_at xs) v =
        (if low > 0 then Some (low - 1) else Some 0)"
      by (subst findNearestBinarySearch.simps) simp
    then show ?thesis using False less.prems hi0 by auto
  next
    case True
    define mid where "mid = (low + high) div 2"
    have sum: "0 \<le> low + high" "low + high < 2 ^ 32"
      using less.prems True len hi0 by simp_all
    have hz: "half_or_zero (low + high) = mid"
      unfolding mid_def by (rule half_or_zero_floor[OF sum])
    have midr: "low \<le> mid" "mid \<le> high"
      using True by (simp_all add: mid_def)
    have midx: "0 \<le> mid" "mid < int (length xs)"
      using midr less.prems hi0 by simp_all
    have at: "item_at xs mid = Some (xs ! nat mid)"
      using midx by (simp add: item_at_def)
    consider (lt) "xs ! nat mid < v" | (gt) "v < xs ! nat mid" | (eq) "xs ! nat mid = v"
      by fastforce
    then show ?thesis
    proof cases
      case lt
      have step: "findNearestBinarySearch low high (item_at xs) v =
          findNearestBinarySearch (mid + 1) high (item_at xs) v"
        using True lt by (subst findNearestBinarySearch.simps) (simp add: hz at)
      have "nat (high - (mid + 1) + 1) < nat (high - low + 1)"
        using midr by simp
      from less.hyps[OF this _ less.prems(2)] midr midx
      show ?thesis unfolding step by simp
    next
      case gt
      have step: "findNearestBinarySearch low high (item_at xs) v =
          findNearestBinarySearch low (mid - 1) (item_at xs) v"
        using True gt by (subst findNearestBinarySearch.simps) (simp add: hz at)
      have "nat (mid - 1 - low + 1) < nat (high - low + 1)"
        using midr by simp
      from less.hyps[OF this less.prems(1)] midr midx less.prems(2)
      show ?thesis unfolding step by simp
    next
      case eq
      have "findNearestBinarySearch low high (item_at xs) v = Some mid"
        using True eq by (subst findNearestBinarySearch.simps) (simp add: hz at)
      then show ?thesis using midx midr less.prems(2) by simp
    qed
  qed
qed

lemma single_lane_forward_bounds:
  "0 \<le> e \<Longrightarrow> e \<le> lastIndex \<Longrightarrow> lastIndex < int (length ms) \<Longrightarrow>
   \<exists>r. single_lane_forward ms so os lastIndex e = Some r \<and> e \<le> r \<and> r \<le> lastIndex"
proof (induction ms so os lastIndex e rule: single_lane_forward.induct)
  case (1 ms so os lastIndex e)
  show ?case
  proof (cases "e < lastIndex")
    case False
    then show ?thesis using "1.prems" by (subst single_lane_forward.simps) simp
  next
    case True
    then have at: "item_at ms e = Some (ms ! nat e)"
      using "1.prems" by (simp add: item_at_def)
    show ?thesis
    proof (cases "end' (ms ! nat e) < so + os")
      case False
      then show ?thesis using True "1.prems" at by (subst single_lane_forward.simps) simp
    next
      case lt: True
      have "\<exists>r. single_lane_forward ms so os lastIndex (e + 1) = Some r \<and> e + 1 \<le> r \<and> r \<le> lastIndex"
        using "1.IH"[OF True at lt] True "1.prems" by simp
      then show ?thesis using True at lt by (subst single_lane_forward.simps) auto
    qed
  qed
qed

lemma expand_forward_bounds:
  "0 \<le> e \<Longrightarrow> e \<le> lastIndex \<Longrightarrow> lastIndex < int (length ms) \<Longrightarrow>
   \<exists>r. expand_forward ms so os lastIndex epl e = Some r \<and> e \<le> r \<and> r \<le> lastIndex"
proof (induction ms so os lastIndex epl e rule: expand_forward.induct)
  case (1 ms so os lastIndex epl e)
  show ?case
  proof (cases "e < lastIndex \<and> js_some (\<lambda>pos. pos < so + os) epl")
    case False
    then show ?thesis using "1.prems" by (subst expand_forward.simps) auto
  next
    case True
    then have at: "item_at ms e = Some (ms ! nat e)"
      using "1.prems" by (simp add: item_at_def)
    have "\<exists>r. expand_forward ms so os lastIndex
             (js_array_set epl (lane (ms ! nat e)) (end' (ms ! nat e))) (e + 1) = Some r \<and>
           e + 1 \<le> r \<and> r \<le> lastIndex"
      using "1.IH"[OF True at] True "1.prems" by simp
    then show ?thesis using True at by (subst expand_forward.simps) auto
  qed
qed

lemma expand_backward_bounds:
  "- 1 \<le> s \<Longrightarrow> s < int (length ms) \<Longrightarrow>
   \<exists>r. expand_backward ms so spl s = Some r \<and> - 1 \<le> r \<and> r \<le> s"
proof (induction ms so spl s rule: expand_backward.induct)
  case (1 ms so spl s)
  show ?case
  proof (cases "s \<ge> 0 \<and> js_some (\<lambda>pos. pos \<ge> so) spl")
    case False
    then show ?thesis using "1.prems" by (subst expand_backward.simps) auto
  next
    case True
    then have at: "item_at ms s = Some (ms ! nat s)"
      using "1.prems" by (simp add: item_at_def)
    have "\<exists>r. expand_backward ms so
             (js_array_set spl (lane (ms ! nat s)) (start (ms ! nat s))) (s - 1) = Some r \<and>
           - 1 \<le> r \<and> r \<le> s - 1"
      using "1.IH"[OF True at] True "1.prems" by simp
    then show ?thesis using True at by (subst expand_backward.simps) auto
  qed
qed

lemma js_rem_nonneg: "0 \<le> a \<Longrightarrow> 0 < b \<Longrightarrow> 0 \<le> js_rem a b \<and> js_rem a b \<le> b - 1 \<and> js_rem a b \<le> a"
  by (auto simp: js_rem_def sgn_if intro: zmod_le_nonneg_dividend)

lemma js_rem_minus_one: "1 < b \<Longrightarrow> js_rem (- 1) b = - 1"
  by (simp add: js_rem_def)

text \<open>
  Claim C2. Whenever there is at least one measurement (the item count is positive) and the
  viewport size is positive, the range calculation returns a range, and that range satisfies
  \<open>0 \<le> startIndex \<le> endIndex \<le> count - 1\<close>, for every scroll offset and every number of
  lanes. The sequence has fewer than \<open>2^31\<close> items, so that the index arithmetic of the binary
  search stays inside ToInt32.
\<close>

theorem calculateRange_within_bounds:
  assumes "length measurements > 0" and "outerSize > 0" and "length measurements < 2 ^ 31"
  shows "\<exists>r. calculateRange_fn measurements outerSize offset lns = Some (Some r) \<and>
           0 \<le> startIndex r \<and> startIndex r \<le> endIndex r \<and>
           endIndex r \<le> int (length measurements) - 1"
proof -
  define lastIndex where "lastIndex = int (length measurements) - 1"
  have li: "0 \<le> lastIndex" "lastIndex < int (length measurements)"
    using assms(1) by (simp_all add: lastIndex_def)
  have "\<exists>r. calculateRange measurements outerSize offset lns = Some r \<and>
           0 \<le> startIndex r \<and> startIndex r \<le> endIndex r \<and> endIndex r \<le> lastIndex"
  proof (cases "int (length measurements) \<le> lns")
    case True
    then show ?thesis using li by (simp add: calculateRange_def lastIndex_def)
  next
    case False
    have "length (map start measurements) < 2 ^ 31" "lastIndex < int (length (map start measurements))"
      using assms(3) li by simp_all
    from findNearestBinarySearch_bounds[OF this(1) li(1) this(2), of 0 lastIndex offset]
    obtain s0 where s0: "findNearestBinarySearch 0 lastIndex (item_at (map start measurements)) offset = Some s0"
      "0 \<le> s0" "s0 \<le> lastIndex"
      using li by auto
    have bs: "findNearestBinarySearch 0 (int (length measurements) - 1)
        (\<lambda>index. map_option start (item_at measurements index)) offset = Some s0"
      using s0(1) by (simp add: item_at_map lastIndex_def)
    consider (one) "lns = 1" | (many) "lns > 1" | (none) "lns < 1" by linarith
    then show ?thesis
    proof cases
      case one
      from single_lane_forward_bounds[OF s0(2,3) li(2), of offset outerSize]
      obtain e where e: "single_lane_forward measurements offset outerSize lastIndex s0 = Some e"
        "s0 \<le> e" "e \<le> lastIndex" by blast
      show ?thesis
        using False one bs e s0 by (simp add: calculateRange_def Let_def lastIndex_def)
    next
      case many
      from expand_forward_bounds[OF s0(2,3) li(2), of offset outerSize "replicate (nat lns) (Some 0)"]
      obtain e where e: "expand_forward measurements offset outerSize lastIndex
           (replicate (nat lns) (Some 0)) s0 = Some e" "s0 \<le> e" "e \<le> lastIndex" by blast
      have "- 1 \<le> s0" "s0 < int (length measurements)" using s0 li by simp_all
      from expand_backward_bounds[OF this, of offset "replicate (nat lns) (Some (offset + outerSize))"]
      obtain s1 where s1: "expand_backward measurements offset
           (replicate (nat lns) (Some (offset + outerSize))) s0 = Some s1"
           "- 1 \<le> s1" "s1 \<le> s0" by blast
      have e0: "0 \<le> e" using e s0 by simp
      have re: "0 \<le> js_rem e lns \<and> js_rem e lns \<le> lns - 1 \<and> js_rem e lns \<le> e"
        using js_rem_nonneg[OF e0, of lns] many by simp
      have sfin: "max 0 (s1 - js_rem s1 lns) \<le> s0"
      proof (cases "s1 = - 1")
        case True
        then show ?thesis using js_rem_minus_one[OF many] s0 by simp
      next
        case False
        then have "0 \<le> s1" using s1(2) by simp
        from js_rem_nonneg[OF this, of lns] many s1(3) s0(2) show ?thesis by simp
      qed
      have efin: "s0 \<le> min lastIndex (e + (lns - 1 - js_rem e lns))"
        using re e s0 by simp
      have r: "calculateRange measurements outerSize offset lns =
          Some \<lparr>startIndex = max 0 (s1 - js_rem s1 lns),
                endIndex = min lastIndex (e + (lns - 1 - js_rem e lns))\<rparr>"
        using False many bs e(1) s1(1) by (simp add: calculateRange_def Let_def lastIndex_def)
      show ?thesis unfolding r using sfin efin by simp
    next
      case none
      show ?thesis
        using False none bs s0 by (simp add: calculateRange_def Let_def lastIndex_def)
    qed
  qed
  then show ?thesis
    using assms(1,2) by (auto simp: calculateRange_fn_def lastIndex_def)
qed

theorem calculateRange_within_bounds_witness:
  "(length (map uniform_item [0, 1, 2, 3, 4, 5]) > 0 \<and> (100 :: real) > 0 \<and>
    length (map uniform_item [0, 1, 2, 3, 4, 5]) < 2 ^ 31) \<and>
   (\<exists>r. calculateRange_fn (map uniform_item [0, 1, 2, 3, 4, 5]) 100 60 1 = Some (Some r) \<and>
      0 \<le> startIndex r \<and> startIndex r \<le> endIndex r \<and>
      endIndex r \<le> int (length (map uniform_item [0, 1, 2, 3, 4, 5])) - 1)"
proof -
  have a: "length (map uniform_item [0, 1, 2, 3, 4, 5]) > 0" by simp
  have b: "(100 :: real) > 0" by simp
  have c: "length (map uniform_item [0, 1, 2, 3, 4, 5]) < 2 ^ 31" by simp
  from calculateRange_within_bounds[OF a b c, of 60 1] a b c
  show ?thesis by blast
qed

section \<open>Properties of the default extractor\<close>

lemma push_indexes_upto: "push_indexes i e arr = arr @ [i..e]"
proof (induction i e arr rule: push_indexes.induct)
  case (1 i e arr)
  show ?case
  proof (cases "i \<le> e")
    case True
    then have "push_indexes i e arr = push_indexes (i + 1) e (arr @ [i])"
      by (subst push_indexes.simps) simp
    also have "\<dots> = (arr @ [i]) @ [i + 1..e]" using 1 True by simp
    also have "\<dots> = arr @ [i..e]" using True by (simp add: upto_rec1)
    finally show ?thesis .
  next
    case False
    then show ?thesis by (subst push_indexes.simps) simp
  qed
qed

lemma defaultRangeExtractor_upto:
  "defaultRangeExtractor rng =
     [max (startIndex rng - range_overscan rng) 0 ..
      min (endIndex rng + range_overscan rng) (range_count rng - 1)]"
  by (simp add: defaultRangeExtractor_def push_indexes_upto Let_def del: push_indexes.simps)

text \<open>
  Claim C8. For a range with \<open>0 \<le> startIndex \<le> endIndex \<le> count - 1\<close> and a non-negative
  overscan, the default extractor returns exactly the indices from
  \<open>max (startIndex - overscan) 0\<close> to \<open>min (endIndex + overscan) (count - 1)\<close> inclusive: the
  list is not empty, begins and ends at those two indices, each element is its predecessor
  plus one (contiguous), it is strictly ascending and has no duplicates.
\<close>

theorem defaultRangeExtractor_window:
  assumes "0 \<le> startIndex rng" and "startIndex rng \<le> endIndex rng"
    and "endIndex rng \<le> range_count rng - 1" and "0 \<le> range_overscan rng"
  shows "defaultRangeExtractor rng =
           [max (startIndex rng - range_overscan rng) 0 ..
            min (endIndex rng + range_overscan rng) (range_count rng - 1)] \<and>
         defaultRangeExtractor rng \<noteq> [] \<and>
         hd (defaultRangeExtractor rng) = max (startIndex rng - range_overscan rng) 0 \<and>
         last (defaultRangeExtractor rng) =
           min (endIndex rng + range_overscan rng) (range_count rng - 1) \<and>
         (\<forall>k. Suc k < length (defaultRangeExtractor rng) \<longrightarrow>
            defaultRangeExtractor rng ! Suc k = defaultRangeExtractor rng ! k + 1) \<and>
         sorted_wrt (<) (defaultRangeExtractor rng) \<and>
         distinct (defaultRangeExtractor rng) \<and>
         set (defaultRangeExtractor rng) =
           {i. startIndex rng - range_overscan rng \<le> i \<and> 0 \<le> i \<and>
               i \<le> endIndex rng + range_overscan rng \<and> i \<le> range_count rng - 1}"
proof -
  define a where "a = max (startIndex rng - range_overscan rng) 0"
  define b where "b = min (endIndex rng + range_overscan rng) (range_count rng - 1)"
  have ab: "a \<le> b" using assms by (simp add: a_def b_def)
  have eq: "defaultRangeExtractor rng = [a..b]"
    by (simp add: defaultRangeExtractor_upto a_def b_def)
  have ne: "[a..b] \<noteq> []" using ab by simp
  have hd: "hd [a..b] = a" using ab by (simp add: upto_rec1)
  have lst: "last [a..b] = b" using ab by (simp add: upto_rec2)
  have step: "\<forall>k. Suc k < length [a..b] \<longrightarrow> [a..b] ! Suc k = [a..b] ! k + 1"
    by (simp add: nth_upto)
  have srt: "sorted_wrt (<) [a..b]" by (rule sorted_wrt_upto)
  have dst: "distinct [a..b]" by simp
  have st: "set [a..b] = {i. startIndex rng - range_overscan rng \<le> i \<and> 0 \<le> i \<and>
               i \<le> endIndex rng + range_overscan rng \<and> i \<le> range_count rng - 1}"
    by (auto simp: a_def b_def)
  show ?thesis
    unfolding eq using ne hd lst step srt dst st
    unfolding a_def b_def by blast
qed

theorem defaultRangeExtractor_window_witness:
  "(0 \<le> startIndex \<lparr>startIndex = 0, endIndex = 9, range_overscan = 1, range_count = 1000\<rparr> \<and>
    startIndex \<lparr>startIndex = 0, endIndex = 9, range_overscan = 1, range_count = 1000\<rparr>
      \<le> endIndex \<lparr>startIndex = 0, endIndex = 9, range_overscan = 1, range_count = 1000\<rparr> \<and>
    endIndex \<lparr>startIndex = 0, endIndex = 9, range_overscan = 1, range_count = 1000\<rparr>
      \<le> range_count \<lparr>startIndex = 0, endIndex = 9, range_overscan = 1, range_count = 1000\<rparr> - 1 \<and>
    0 \<le> range_overscan \<lparr>startIndex = 0, endIndex = 9, range_overscan = 1, range_count = 1000\<rparr>) \<and>
   defaultRangeExtractor \<lparr>startIndex = 0, endIndex = 9, range_overscan = 1, range_count = 1000\<rparr>
     = [0 .. 10] \<and>
   sorted_wrt (<)
     (defaultRangeExtractor
        \<lparr>startIndex = 0, endIndex = 9, range_overscan = 1, range_count = 1000\<rparr>) \<and>
   distinct
     (defaultRangeExtractor
        \<lparr>startIndex = 0, endIndex = 9, range_overscan = 1, range_count = 1000\<rparr>)"
proof -
  define rng where
    "rng = \<lparr>startIndex = 0, endIndex = 9, range_overscan = 1, range_count = (1000 :: int)\<rparr>"
  have h: "0 \<le> startIndex rng" "startIndex rng \<le> endIndex rng"
    "endIndex rng \<le> range_count rng - 1" "0 \<le> range_overscan rng"
    by (simp_all add: rng_def)
  from defaultRangeExtractor_window[OF h]
  have "defaultRangeExtractor rng =
      [max (startIndex rng - range_overscan rng) 0 ..
       min (endIndex rng + range_overscan rng) (range_count rng - 1)]"
    and "sorted_wrt (<) (defaultRangeExtractor rng)" and "distinct (defaultRangeExtractor rng)"
    by blast+
  moreover have "max (startIndex rng - range_overscan rng) 0 = 0"
    and "min (endIndex rng + range_overscan rng) (range_count rng - 1) = 10"
    by (simp_all add: rng_def)
  ultimately show ?thesis using h unfolding rng_def by simp
qed

section \<open>Properties of the memoized function\<close>

lemma deps_differ_iff:
  "length newDeps = length old \<Longrightarrow>
   list_ex (\<lambda>(i, dep). old ! i \<noteq> dep) (zip [0 ..< length newDeps] newDeps) \<longleftrightarrow>
   (\<exists>i < length newDeps. old ! i \<noteq> newDeps ! i)"
proof
  assume "list_ex (\<lambda>(i, dep). old ! i \<noteq> dep) (zip [0 ..< length newDeps] newDeps)"
  then obtain i dep where m: "(i, dep) \<in> set (zip [0 ..< length newDeps] newDeps)" and ne: "old ! i \<noteq> dep"
    by (auto simp: list_ex_iff)
  from m obtain k where "k < length newDeps" "i = k" "dep = newDeps ! k"
    by (auto simp: set_zip)
  with ne show "\<exists>i < length newDeps. old ! i \<noteq> newDeps ! i" by blast
next
  assume "\<exists>i < length newDeps. old ! i \<noteq> newDeps ! i"
  then obtain i where i: "i < length newDeps" "old ! i \<noteq> newDeps ! i" by blast
  then have "(i, newDeps ! i) \<in> set (zip [0 ..< length newDeps] newDeps)"
    by (force simp: set_zip)
  with i(2) show "list_ex (\<lambda>(i, dep). old ! i \<noteq> dep) (zip [0 ..< length newDeps] newDeps)"
    by (auto simp: list_ex_iff)
qed

text \<open>
  Claim C9. A memoized function built with an explicit \<^verbatim>\<open>initialDeps\<close>, whose first call
  sees a dependency tuple of the same length and with the same elements as \<^verbatim>\<open>initialDeps\<close>,
  does not invoke the compute function (nor \<^verbatim>\<open>onChange\<close>), keeps its state and returns
  \<^verbatim>\<open>undefined\<close>.
\<close>

theorem memo_initialDeps_first_call:
  assumes "initialDeps opts = Some ds"
    and "length newDeps = length ds"
    and "\<forall>i < length newDeps. newDeps ! i = ds ! i"
  shows "returned (memoizedFunction opts fn newDeps (memo opts)) = None \<and>
         fn_calls (memoizedFunction opts fn newDeps (memo opts)) = [] \<and>
         onChange_calls (memoizedFunction opts fn newDeps (memo opts)) = [] \<and>
         state_after (memoizedFunction opts fn newDeps (memo opts)) = memo opts"
proof -
  have d: "deps (memo opts :: ('a, 'b) memo_state) = ds" using assms(1) by (simp add: memo_def)
  have "\<not> list_ex (\<lambda>(i, dep). ds ! i \<noteq> dep) (zip [0 ..< length newDeps] newDeps)"
    using assms(3) by (subst deps_differ_iff[OF assms(2)]) simp
  then show ?thesis
    using assms(2) d by (simp add: memoizedFunction_def memo_def)
qed

theorem memo_initialDeps_first_call_witness:
  "(initialDeps \<lparr>initialDeps = Some [Some (0 :: int), None, None], has_onChange = False\<rparr>
      = Some [Some 0, None, None] \<and>
    length [Some (0 :: int), None, None] = length [Some (0 :: int), None, None]) \<and>
   returned
     (memoizedFunction \<lparr>initialDeps = Some [Some (0 :: int), None, None], has_onChange = False\<rparr>
        (\<lambda>ds. length ds) [Some 0, None, None]
        (memo \<lparr>initialDeps = Some [Some (0 :: int), None, None], has_onChange = False\<rparr>))
     = None \<and>
   fn_calls
     (memoizedFunction \<lparr>initialDeps = Some [Some (0 :: int), None, None], has_onChange = False\<rparr>
        (\<lambda>ds. length ds) [Some 0, None, None]
        (memo \<lparr>initialDeps = Some [Some (0 :: int), None, None], has_onChange = False\<rparr>))
     = []"
proof -
  define opts where
    "opts = \<lparr>initialDeps = Some [Some (0 :: int), None, None], has_onChange = False\<rparr>"
  have h1: "initialDeps opts = Some [Some 0, None, None]" by (simp add: opts_def)
  have h2: "length [Some (0 :: int), None, None] = length [Some (0 :: int), None, None]" by simp
  have h3: "\<forall>i < length [Some (0 :: int), None, None].
       [Some (0 :: int), None, None] ! i = [Some 0, None, None] ! i" by simp
  from memo_initialDeps_first_call[OF h1 h2 h3, of "\<lambda>ds. length ds"] h1 h2 h3
  show ?thesis unfolding opts_def by blast
qed

section \<open>Frame properties of the instance methods\<close>

lemma getScrollOffset_frame:
  "options (snd (getScrollOffset v)) = options v"
  "scrollAdjustments (snd (getScrollOffset v)) = scrollAdjustments v"
  "effects (snd (getScrollOffset v)) = effects v"
  "scrollRect (snd (getScrollOffset v)) = scrollRect v"
  "scrollElement (snd (getScrollOffset v)) = scrollElement v"
  "measurementsCache (snd (getScrollOffset v)) = measurementsCache v"
  "itemSizeCache (snd (getScrollOffset v)) = itemSizeCache v"
  "pendingMeasuredCacheIndexes (snd (getScrollOffset v)) = pendingMeasuredCacheIndexes v"
  by (simp_all add: getScrollOffset_def Let_def)

lemma getScrollOffset_idem:
  "getScrollOffset (snd (getScrollOffset v)) = (fst (getScrollOffset v), snd (getScrollOffset v))"
  by (simp add: getScrollOffset_def Let_def)

lemma getSize_frame:
  "options (snd (getSize v)) = options v"
  "effects (snd (getSize v)) = effects v"
  "scrollOffset (snd (getSize v)) = scrollOffset v"
  "scrollElement (snd (getSize v)) = scrollElement v"
  by (simp_all add: getSize_def Let_def)

lemma getScrollOffset_after_getSize:
  "fst (getScrollOffset (snd (getSize v))) = fst (getScrollOffset v)"
  by (simp add: getScrollOffset_def getSize_def Let_def split: option.splits)

lemma prelude_frame:
  "options (warn_smooth b (cancelScrollToIndex v)) = options v"
  "scrollOffset (warn_smooth b (cancelScrollToIndex v)) = scrollOffset v"
  "scrollRect (warn_smooth b (cancelScrollToIndex v)) = scrollRect v"
  "scrollElement (warn_smooth b (cancelScrollToIndex v)) = scrollElement v"
  by (simp_all add: warn_smooth_def cancelScrollToIndex_def split: option.splits)

lemma getScrollOffset_cong:
  "options v' = options v \<Longrightarrow> scrollOffset v' = scrollOffset v \<Longrightarrow>
   fst (getScrollOffset v') = fst (getScrollOffset v)"
  by (simp add: getScrollOffset_def Let_def split: option.splits)

lemma getSize_cong:
  "options v' = options v \<Longrightarrow> scrollRect v' = scrollRect v \<Longrightarrow>
   fst (getSize v') = fst (getSize v)"
  by (simp add: getSize_def Let_def split: option.splits)

lemma scrollSize_cong:
  "options v' = options v \<Longrightarrow> scrollElement v' = scrollElement v \<Longrightarrow> scrollSize v' = scrollSize v"
  by (simp add: scrollSize_def split: option.splits)

lemma getSize_idem:
  "fst (getSize (snd (getSize v))) = fst (getSize v)"
  by (simp add: getSize_def Let_def split: option.splits)

lemma getSize_after_getScrollOffset:
  "fst (getSize (snd (getScrollOffset v))) = fst (getSize v)"
  by (rule getSize_cong) (rule getScrollOffset_frame)+

lemma getOffsetForAlignment_value:
  "fst (getOffsetForAlignment t a itemSize v) =
     max (min (scrollSize v - fst (getSize v))
            (if a = AlignCenter then t + (itemSize - fst (getSize v)) / 2
             else if a = AlignEnd \<or> (a = AlignAuto \<and> t \<ge> fst (getScrollOffset v) + fst (getSize v))
             then t - fst (getSize v)
             else t)) 0"
proof -
  define v1 where "v1 = snd (getSize v)"
  define v2 where "v2 = snd (getScrollOffset v1)"
  define sz where "sz = fst (getSize v)"
  define offset where "offset = fst (getScrollOffset v)"
  have gs: "getSize v = (sz, v1)" by (simp add: sz_def v1_def)
  have go: "getScrollOffset v1 = (offset, v2)"
    by (simp add: prod_eq_iff offset_def v2_def v1_def getScrollOffset_after_getSize)
  have ss: "scrollSize v2 = scrollSize v"
    unfolding v2_def v1_def
    by (rule scrollSize_cong) (simp_all add: getScrollOffset_frame getSize_frame)
  show ?thesis
    unfolding sz_def[symmetric] offset_def[symmetric]
    by (simp add: getOffsetForAlignment_def Let_def gs go ss)
qed

section \<open>Properties of resizing\<close>

text \<open>
  Claim C10. For an index that has no entry in the measurement cache (it is negative or not
  below the length of the cached sequence), \<^verbatim>\<open>resizeItem\<close> returns the instance as it was: the
  size map, the pending adjustment, the measurement cache and the pending indexes are
  untouched, and neither a change notification nor a scroll request is sent.
\<close>

theorem resizeItem_no_entry:
  assumes "i < 0 \<or> int (length (measurementsCache v)) \<le> i"
  shows "resizeItem i sz v = v"
  using assms by (auto simp: resizeItem_def item_at_def)

theorem resizeItem_no_entry_witness:
  "((- 1 :: int) < 0 \<or> int (length (measurementsCache example_scrolled)) \<le> - 1) \<and>
   resizeItem (- 1) 80 example_scrolled = example_scrolled \<and>
   (6 < (0 :: int) \<or> int (length (measurementsCache example_scrolled)) \<le> 6) \<and>
   resizeItem 6 80 example_scrolled = example_scrolled"
proof -
  have h1: "(- 1 :: int) < 0 \<or> int (length (measurementsCache example_scrolled)) \<le> - 1"
    by simp
  have h2: "6 < (0 :: int) \<or> int (length (measurementsCache example_scrolled)) \<le> 6"
    by (simp add: example_scrolled_def example_measured_def)
  from resizeItem_no_entry[OF h1, of 80] resizeItem_no_entry[OF h2, of 80] h1 h2
  show ?thesis by blast
qed

text \<open>
  Claim C4. When \<^verbatim>\<open>resizeItem\<close> is called for a cached item with a size that differs from
  the cached size (the entry of the size map, or the size of the item when there is none), no
  override predicate is installed and the start of the item lies before the current offset
  plus the pending adjustment, then the pending adjustment grows by the size delta and the
  call sends exactly a scroll request at the current offset that carries the new pending
  adjustment, followed by the change notification. The witness is the scenario of the spec:
  at offset 200 the item 1 (start 50) goes from 50 to 80 pixels; the pending adjustment goes
  from 0 to 30 and the request is for offset 200 with adjustments 30.
\<close>

theorem resizeItem_compensation:
  assumes item: "item_at (measurementsCache v) i = Some item"
    and differs: "sz \<noteq> (case itemSizeCache v (key item) of Some s \<Rightarrow> s | None \<Rightarrow> size' item)"
    and no_override: "shouldAdjustScrollPositionOnItemSizeChange v = None"
    and before: "start item < fst (getScrollOffset v) + scrollAdjustments v"
  shows "scrollAdjustments (resizeItem i sz v) =
           scrollAdjustments v +
             (sz - (case itemSizeCache v (key item) of Some s \<Rightarrow> s | None \<Rightarrow> size' item)) \<and>
         effects (resizeItem i sz v) =
           effects v @
             [ScrollToFn (fst (getScrollOffset v))
                (Some (scrollAdjustments v +
                   (sz - (case itemSizeCache v (key item) of Some s \<Rightarrow> s | None \<Rightarrow> size' item))))
                None,
              Notify False]"
proof -
  define cached where "cached = (case itemSizeCache v (key item) of Some s \<Rightarrow> s | None \<Rightarrow> size' item)"
  define v0 where "v0 = snd (getScrollOffset v)"
  define offset where "offset = fst (getScrollOffset v)"
  have g: "getScrollOffset v = (offset, v0)" by (simp add: v0_def offset_def)
  have g0: "getScrollOffset v0 = (offset, v0)"
    unfolding v0_def offset_def by (rule getScrollOffset_idem)
  have adj: "scrollAdjustments v0 = scrollAdjustments v" and eff: "effects v0 = effects v"
    unfolding v0_def by (rule getScrollOffset_frame)+
  have d: "sz - cached \<noteq> 0" using differs by (simp add: cached_def)
  have b: "start item < offset + scrollAdjustments v0" using before by (simp add: offset_def adj)
  have "resizeItem i sz v =
      notify False
        ((scrollToOffset_internal offset (Some (scrollAdjustments v0 + (sz - cached))) None
            (v0\<lparr>scrollAdjustments := scrollAdjustments v0 + (sz - cached)\<rparr>))
          \<lparr>pendingMeasuredCacheIndexes :=
             pendingMeasuredCacheIndexes
               (scrollToOffset_internal offset (Some (scrollAdjustments v0 + (sz - cached))) None
                  (v0\<lparr>scrollAdjustments := scrollAdjustments v0 + (sz - cached)\<rparr>)) @ [index item],
           itemSizeCache :=
             (itemSizeCache
               (scrollToOffset_internal offset (Some (scrollAdjustments v0 + (sz - cached))) None
                  (v0\<lparr>scrollAdjustments := scrollAdjustments v0 + (sz - cached)\<rparr>)))(key item \<mapsto> sz)\<rparr>)"
    using d b by (simp add: resizeItem_def item no_override g g0 Let_def cached_def[symmetric])
  then show ?thesis
    by (simp add: notify_def scrollToOffset_internal_def adj eff cached_def offset_def)
qed

lemma example_scrolled_facts:
  "item_at (measurementsCache example_scrolled) 1 = Some (uniform_item 1)"
  "itemSizeCache example_scrolled k = None"
  "shouldAdjustScrollPositionOnItemSizeChange example_scrolled = None"
  "fst (getScrollOffset example_scrolled) = 200"
  "scrollAdjustments example_scrolled = 0"
  "effects example_scrolled = []"
  "pendingMeasuredCacheIndexes example_scrolled = []"
  "lanes (options example_scrolled) = 1"
  "gap (options example_scrolled) = 0"
  by (simp_all add: example_scrolled_def example_measured_def new_Virtualizer_def
      example_options_def item_at_def getScrollOffset_def)

theorem resizeItem_compensation_witness:
  "(item_at (measurementsCache example_scrolled) 1 = Some (uniform_item 1) \<and>
    (80 :: real) \<noteq>
      (case itemSizeCache example_scrolled (key (uniform_item 1)) of
         Some s \<Rightarrow> s | None \<Rightarrow> size' (uniform_item 1)) \<and>
    shouldAdjustScrollPositionOnItemSizeChange example_scrolled = None \<and>
    start (uniform_item 1) <
      fst (getScrollOffset example_scrolled) + scrollAdjustments example_scrolled) \<and>
   scrollAdjustments (resizeItem 1 80 example_scrolled) = 30 \<and>
   effects (resizeItem 1 80 example_scrolled) = [ScrollToFn 200 (Some 30) None, Notify False]"
proof -
  have h1: "item_at (measurementsCache example_scrolled) 1 = Some (uniform_item 1)"
    by (rule example_scrolled_facts)
  have h2: "(80 :: real) \<noteq>
      (case itemSizeCache example_scrolled (key (uniform_item 1)) of
         Some s \<Rightarrow> s | None \<Rightarrow> size' (uniform_item 1))"
    by (simp add: example_scrolled_facts uniform_item_def)
  have h3: "shouldAdjustScrollPositionOnItemSizeChange example_scrolled = None"
    by (rule example_scrolled_facts)
  have h4: "start (uniform_item 1) <
      fst (getScrollOffset example_scrolled) + scrollAdjustments example_scrolled"
    by (simp add: example_scrolled_facts uniform_item_def)
  have v: "(case itemSizeCache example_scrolled (key (uniform_item 1)) of
         Some s \<Rightarrow> s | None \<Rightarrow> size' (uniform_item 1)) = 50"
    by (simp add: example_scrolled_facts uniform_item_def)
  from resizeItem_compensation[OF h1 h2 h3 h4]
  have "scrollAdjustments (resizeItem 1 80 example_scrolled) = 30 \<and>
   effects (resizeItem 1 80 example_scrolled) = [ScrollToFn 200 (Some 30) None, Notify False]"
    by (simp add: example_scrolled_facts uniform_item_def)
  with h1 h2 h3 h4 show ?thesis by blast
qed

section \<open>Properties of the scroll position controller\<close>

lemma scrollBy_effects:
  "effects (scrollBy delta b v) =
     effects (warn_smooth b (cancelScrollToIndex v)) @
       [ScrollToFn (fst (getScrollOffset v) + delta) None b]"
proof -
  define v1 where "v1 = warn_smooth b (cancelScrollToIndex v)"
  have o: "fst (getScrollOffset v1) = fst (getScrollOffset v)"
    unfolding v1_def by (rule getScrollOffset_cong) (rule prelude_frame)+
  have "effects (scrollBy delta b v) =
      effects (snd (getScrollOffset v1)) @ [ScrollToFn (fst (getScrollOffset v1) + delta) None b]"
    by (simp add: scrollBy_def Let_def v1_def[symmetric] scrollToOffset_internal_def
        split: prod.splits)
  then show ?thesis
    unfolding o by (simp add: getScrollOffset_frame v1_def)
qed

lemma getOffsetForAlignment_start:
  "fst (getOffsetForAlignment t AlignStart itemSize v) =
     max (min (scrollSize v - fst (getSize v)) t) 0"
  "effects (snd (getOffsetForAlignment t AlignStart itemSize v)) = effects v"
proof -
  define v1 where "v1 = snd (getSize v)"
  define v2 where "v2 = snd (getScrollOffset v1)"
  have ss: "scrollSize v2 = scrollSize v"
    unfolding v2_def v1_def
    by (rule scrollSize_cong) (simp_all add: getScrollOffset_frame getSize_frame)
  have r: "getOffsetForAlignment t AlignStart itemSize v =
      (max (min (scrollSize v2 - fst (getSize v)) t) 0, v2)"
    by (simp add: getOffsetForAlignment_def Let_def v1_def v2_def split: prod.splits)
  show "fst (getOffsetForAlignment t AlignStart itemSize v) =
     max (min (scrollSize v - fst (getSize v)) t) 0"
    by (simp add: r ss)
  show "effects (snd (getOffsetForAlignment t AlignStart itemSize v)) = effects v"
    by (simp add: r v2_def v1_def getScrollOffset_frame getSize_frame)
qed

lemma scrollToOffset_start_effects:
  "effects (scrollToOffset t (Some AlignStart) b v) =
     effects (warn_smooth b (cancelScrollToIndex v)) @
       [ScrollToFn (max (min (scrollSize v - fst (getSize v)) t) 0) None b]"
proof -
  define v1 where "v1 = warn_smooth b (cancelScrollToIndex v)"
  have s: "fst (getSize v1) = fst (getSize v)"
    unfolding v1_def by (rule getSize_cong) (rule prelude_frame)+
  have ss: "scrollSize v1 = scrollSize v"
    unfolding v1_def by (rule scrollSize_cong) (rule prelude_frame)+
  have "effects (scrollToOffset t (Some AlignStart) b v) =
      effects (snd (getOffsetForAlignment t AlignStart 0 v1)) @
        [ScrollToFn (fst (getOffsetForAlignment t AlignStart 0 v1)) None b]"
    by (simp add: scrollToOffset_def Let_def v1_def[symmetric] scrollToOffset_internal_def
        split: prod.splits)
  then show ?thesis
    unfolding getOffsetForAlignment_start s ss by (simp add: v1_def)
qed

lemma example_attached_facts:
  "effects (warn_smooth None (cancelScrollToIndex example_attached)) = []"
  "fst (getScrollOffset example_attached) = 0"
  "fst (getSize example_attached) = 100"
  "scrollSize example_attached = 300"
  by (simp_all add: example_attached_def example_measured_def new_Virtualizer_def
      example_options_def warn_smooth_def cancelScrollToIndex_def getScrollOffset_def
      getSize_def scrollSize_def)

text \<open>
  Claim C6, as amended. \<^verbatim>\<open>scrollBy(delta, {behavior})\<close> sends the scroll request for the
  current offset plus \<open>delta\<close>, not clamped at all.
  \<^verbatim>\<open>scrollToOffset(currentOffset + delta, {align: 'start', behavior})\<close> sends the request for
  that target clamped into \<open>[0, scrollSize - viewportSize]\<close> by the alignment rule. Both are
  preceded by the same cancellation and warning, and the two requests are the same whenever
  the target lies between \<open>0\<close> and \<open>scrollSize - viewportSize\<close>.
\<close>

theorem scrollBy_scrollToOffset:
  "effects (scrollBy delta behavior v) =
     effects (warn_smooth behavior (cancelScrollToIndex v)) @
       [ScrollToFn (fst (getScrollOffset v) + delta) None behavior] \<and>
   effects (scrollToOffset (fst (getScrollOffset v) + delta) (Some AlignStart) behavior v) =
     effects (warn_smooth behavior (cancelScrollToIndex v)) @
       [ScrollToFn
          (max (min (scrollSize v - fst (getSize v)) (fst (getScrollOffset v) + delta)) 0)
          None behavior] \<and>
   (0 \<le> fst (getScrollOffset v) + delta \<and>
    fst (getScrollOffset v) + delta \<le> scrollSize v - fst (getSize v) \<longrightarrow>
      effects (scrollBy delta behavior v) =
        effects (scrollToOffset (fst (getScrollOffset v) + delta) (Some AlignStart) behavior v))"
  by (simp add: scrollBy_effects scrollToOffset_start_effects)

theorem scrollBy_scrollToOffset_witness:
  "(0 \<le> fst (getScrollOffset example_attached) + 150 \<and>
    fst (getScrollOffset example_attached) + 150 \<le>
      scrollSize example_attached - fst (getSize example_attached)) \<and>
   effects (scrollBy 150 None example_attached) =
     effects (scrollToOffset (fst (getScrollOffset example_attached) + 150) (Some AlignStart) None
                example_attached)"
proof -
  have h: "0 \<le> fst (getScrollOffset example_attached) + 150 \<and>
    fst (getScrollOffset example_attached) + 150 \<le>
      scrollSize example_attached - fst (getSize example_attached)"
    unfolding example_attached_facts by simp
  from scrollBy_scrollToOffset[of 150 None example_attached] h
  show ?thesis by blast
qed

text \<open>
  The claim as stated fails: at the top of the list (offset 0, content of 300 pixels, viewport
  of 100 pixels) \<^verbatim>\<open>scrollBy(-50)\<close> requests offset \<open>-50\<close>, while
  \<^verbatim>\<open>scrollToOffset(0 + -50, {align: 'start'})\<close> requests offset \<open>0\<close>.
\<close>

theorem scrollBy_scrollToOffset_counterexample:
  "effects (scrollBy (- 50) None example_attached) = [ScrollToFn (- 50) None None] \<and>
   effects (scrollToOffset (fst (getScrollOffset example_attached) + (- 50)) (Some AlignStart) None
              example_attached) = [ScrollToFn 0 None None] \<and>
   effects (scrollBy (- 50) None example_attached) \<noteq>
   effects (scrollToOffset (fst (getScrollOffset example_attached) + (- 50)) (Some AlignStart) None
              example_attached)"
proof -
  have a: "effects (scrollBy (- 50) None example_attached) = [ScrollToFn (- 50) None None]"
    unfolding scrollBy_effects example_attached_facts by simp
  have b: "effects (scrollToOffset (fst (getScrollOffset example_attached) + (- 50))
              (Some AlignStart) None example_attached) = [ScrollToFn 0 None None]"
    unfolding scrollToOffset_start_effects example_attached_facts by simp
  show ?thesis unfolding a b by simp
qed

lemma auto_alignment_cases:
  assumes item: "item_at (measurementsCache v) (max 0 (min i (count (options v) - 1))) = Some item"
  shows
    "(fst (getScrollOffset v) + scrollPaddingStart (options v) < start item \<and>
      end' item < fst (getScrollOffset v) + fst (getSize v) - scrollPaddingEnd (options v) \<longrightarrow>
        fst (getOffsetForIndex i AlignAuto v) = Some (fst (getScrollOffset v), AlignAuto)) \<and>
     (end' item \<ge> fst (getScrollOffset v) + fst (getSize v) - scrollPaddingEnd (options v) \<longrightarrow>
        fst (getOffsetForIndex i AlignAuto v) =
          Some (fst (getOffsetForAlignment (end' item + scrollPaddingEnd (options v)) AlignEnd
                       (size' item) v), AlignEnd)) \<and>
     (end' item < fst (getScrollOffset v) + fst (getSize v) - scrollPaddingEnd (options v) \<and>
      start item \<le> fst (getScrollOffset v) + scrollPaddingStart (options v) \<longrightarrow>
        fst (getOffsetForIndex i AlignAuto v) =
          Some (fst (getOffsetForAlignment (start item - scrollPaddingStart (options v)) AlignStart
                       (size' item) v), AlignStart))"
proof -
  define v1 where "v1 = snd (getSize v)"
  define v2 where "v2 = snd (getScrollOffset v1)"
  define sz where "sz = fst (getSize v)"
  define offset where "offset = fst (getScrollOffset v)"
  have gs: "getSize v = (sz, v1)" by (simp add: sz_def v1_def)
  have go: "getScrollOffset v1 = (offset, v2)"
    by (simp add: prod_eq_iff offset_def v2_def v1_def getScrollOffset_after_getSize)
  have opt: "options v2 = options v"
    by (simp add: v2_def v1_def getScrollOffset_frame getSize_frame)
  have sz2: "fst (getSize v2) = sz"
    by (simp add: v2_def v1_def sz_def getSize_after_getScrollOffset getSize_idem)
  have "fst (getScrollOffset v1) = offset" by (simp add: go)
  then have off2: "fst (getScrollOffset v2) = offset"
    by (simp add: v2_def getScrollOffset_idem)
  have ss2: "scrollSize v2 = scrollSize v"
    unfolding v2_def v1_def
    by (rule scrollSize_cong) (simp_all add: getScrollOffset_frame getSize_frame)
  have al: "fst (getOffsetForAlignment t a s v2) = fst (getOffsetForAlignment t a s v)" for t a s
    by (simp only: getOffsetForAlignment_value sz2 off2 ss2 sz_def[symmetric] offset_def[symmetric])
  show ?thesis
    unfolding sz_def[symmetric] offset_def[symmetric]
    by (simp add: getOffsetForIndex_def Let_def item gs go opt al case_prod_beta)
qed

text \<open>
  Claim C7, as amended. For an index whose (clamped) item lies strictly inside the viewport
  shrunk by the scroll paddings, that is \<open>offset + scrollPaddingStart < start\<close> and
  \<open>end < offset + size - scrollPaddingEnd\<close>, \<^verbatim>\<open>getOffsetForIndex(index, 'auto')\<close> returns the
  current offset, with the alignment left at \<^verbatim>\<open>'auto'\<close>. Otherwise the alignment is resolved
  before the alignment rule is applied: to \<^verbatim>\<open>'end'\<close> when the end of the item reaches or passes
  the padded end edge (\<open>end \<ge> offset + size - scrollPaddingEnd\<close>), and else to \<^verbatim>\<open>'start'\<close>
  (the start of the item reaches or passes the padded start edge); the offset returned is the
  one the alignment rule gives for \<open>end + scrollPaddingEnd\<close>, respectively
  \<open>start - scrollPaddingStart\<close>.
\<close>

theorem getOffsetForIndex_auto:
  assumes item: "item_at (measurementsCache v) (max 0 (min i (count (options v) - 1))) = Some item"
  shows
    "(fst (getScrollOffset v) + scrollPaddingStart (options v) < start item \<and>
      end' item < fst (getScrollOffset v) + fst (getSize v) - scrollPaddingEnd (options v) \<longrightarrow>
        fst (getOffsetForIndex i AlignAuto v) = Some (fst (getScrollOffset v), AlignAuto)) \<and>
     (end' item \<ge> fst (getScrollOffset v) + fst (getSize v) - scrollPaddingEnd (options v) \<longrightarrow>
        fst (getOffsetForIndex i AlignAuto v) =
          Some (fst (getOffsetForAlignment (end' item + scrollPaddingEnd (options v)) AlignEnd
                       (size' item) v), AlignEnd)) \<and>
     (end' item < fst (getScrollOffset v) + fst (getSize v) - scrollPaddingEnd (options v) \<and>
      start item \<le> fst (getScrollOffset v) + scrollPaddingStart (options v) \<longrightarrow>
        fst (getOffsetForIndex i AlignAuto v) =
          Some (fst (getOffsetForAlignment (start item - scrollPaddingStart (options v)) AlignStart
                       (size' item) v), AlignStart))"
  using item by (rule auto_alignment_cases)

lemma example_restored_facts:
  "fst (getScrollOffset example_restored) = 100"
  "fst (getSize example_restored) = 100"
  "scrollSize example_restored = 0"
  "scrollPaddingStart (options example_restored) = 0"
  "scrollPaddingEnd (options example_restored) = 0"
  "item_at (measurementsCache example_restored) (max 0 (min 2 (count (options example_restored) - 1))) = Some (uniform_item 2)"
  "item_at (measurementsCache example_restored) (max 0 (min 3 (count (options example_restored) - 1))) = Some (uniform_item 3)"
  "item_at (measurementsCache example_restored) (max 0 (min 1 (count (options example_restored) - 1))) = Some (uniform_item 1)"
  by (simp_all add: example_restored_def new_Virtualizer_def example_options_def
      getScrollOffset_def getSize_def scrollSize_def item_at_def Let_def)

lemma example_midway_items:
  "item_at (measurementsCache example_midway)
     (max 0 (min 0 (count (options example_midway) - 1))) = Some (uniform_item 0)"
  "item_at (measurementsCache example_midway)
     (max 0 (min 1 (count (options example_midway) - 1))) = Some (uniform_item 1)"
  "item_at (measurementsCache example_midway)
     (max 0 (min 3 (count (options example_midway) - 1))) = Some (uniform_item 3)"
  "scrollPaddingStart (options example_midway) = 0"
  "scrollPaddingEnd (options example_midway) = 0"
  "fst (getScrollOffset example_midway) = 20"
  "fst (getSize example_midway) = 100"
  "scrollSize example_midway = 300"
  by (simp_all add: example_midway_def example_attached_def example_measured_def
      new_Virtualizer_def example_options_def item_at_def getScrollOffset_def getSize_def
      scrollSize_def)

theorem getOffsetForIndex_auto_witness:
  "item_at (measurementsCache example_midway)
     (max 0 (min 0 (count (options example_midway) - 1))) = Some (uniform_item 0) \<and>
   item_at (measurementsCache example_midway)
     (max 0 (min 1 (count (options example_midway) - 1))) = Some (uniform_item 1) \<and>
   item_at (measurementsCache example_midway)
     (max 0 (min 3 (count (options example_midway) - 1))) = Some (uniform_item 3) \<and>
   (start (uniform_item 0)
      \<le> fst (getScrollOffset example_midway) + scrollPaddingStart (options example_midway) \<and>
    fst (getOffsetForIndex 0 AlignAuto example_midway) = Some (0, AlignStart)) \<and>
   (fst (getScrollOffset example_midway) + scrollPaddingStart (options example_midway)
      < start (uniform_item 1) \<and>
    end' (uniform_item 1)
      < fst (getScrollOffset example_midway) + fst (getSize example_midway)
          - scrollPaddingEnd (options example_midway) \<and>
    fst (getOffsetForIndex 1 AlignAuto example_midway) = Some (20, AlignAuto)) \<and>
   (end' (uniform_item 3)
      \<ge> fst (getScrollOffset example_midway) + fst (getSize example_midway)
          - scrollPaddingEnd (options example_midway) \<and>
    fst (getOffsetForIndex 3 AlignAuto example_midway) = Some (100, AlignEnd))"
proof -
  note f = example_midway_items
  have s0: "end' (uniform_item 0)
      < fst (getScrollOffset example_midway) + fst (getSize example_midway)
          - scrollPaddingEnd (options example_midway) \<and>
    start (uniform_item 0)
      \<le> fst (getScrollOffset example_midway) + scrollPaddingStart (options example_midway)"
    unfolding f by (simp add: uniform_item_def)
  have s1: "fst (getScrollOffset example_midway) + scrollPaddingStart (options example_midway)
      < start (uniform_item 1) \<and>
    end' (uniform_item 1)
      < fst (getScrollOffset example_midway) + fst (getSize example_midway)
          - scrollPaddingEnd (options example_midway)"
    unfolding f by (simp add: uniform_item_def)
  have s3: "end' (uniform_item 3)
      \<ge> fst (getScrollOffset example_midway) + fst (getSize example_midway)
          - scrollPaddingEnd (options example_midway)"
    unfolding f by (simp add: uniform_item_def)
  have r0: "fst (getOffsetForIndex 0 AlignAuto example_midway) = Some (0, AlignStart)"
    using getOffsetForIndex_auto[OF f(1)] s0
    unfolding getOffsetForAlignment_value f by (simp add: uniform_item_def)
  have r1: "fst (getOffsetForIndex 1 AlignAuto example_midway) = Some (20, AlignAuto)"
    using getOffsetForIndex_auto[OF f(2)] s1 unfolding f by simp
  have r3: "fst (getOffsetForIndex 3 AlignAuto example_midway) = Some (100, AlignEnd)"
    using getOffsetForIndex_auto[OF f(3)] s3
    unfolding getOffsetForAlignment_value f by (simp add: uniform_item_def)
  show ?thesis using f(1,2,3) s0 s1 s3 r0 r1 r3 by blast
qed

text \<open>
  The claim as stated fails for an item that touches the padded edge from inside. Before a
  scroll element is attached, with an initial offset of 100 and a viewport of 100 pixels, the
  item 2 occupies \<open>[100, 150]\<close> and so lies fully within the viewport \<open>[100, 200]\<close>; yet
  \<^verbatim>\<open>getOffsetForIndex(2, 'auto')\<close> resolves the alignment to \<^verbatim>\<open>'start'\<close> and returns the
  offset \<open>0\<close>, not the current offset \<open>100\<close>.
\<close>

theorem getOffsetForIndex_auto_counterexample:
  "item_at (measurementsCache example_restored)
     (max 0 (min 2 (count (options example_restored) - 1))) = Some (uniform_item 2) \<and>
   fst (getScrollOffset example_restored) + scrollPaddingStart (options example_restored)
     \<le> start (uniform_item 2) \<and>
   end' (uniform_item 2)
     \<le> fst (getScrollOffset example_restored) + fst (getSize example_restored)
         - scrollPaddingEnd (options example_restored) \<and>
   fst (getScrollOffset example_restored) = 100 \<and>
   fst (getOffsetForIndex 2 AlignAuto example_restored) = Some (0, AlignStart)"
proof -
  note f = example_restored_facts
  have c: "end' (uniform_item 2)
      < fst (getScrollOffset example_restored) + fst (getSize example_restored)
          - scrollPaddingEnd (options example_restored) \<and>
    start (uniform_item 2)
      \<le> fst (getScrollOffset example_restored) + scrollPaddingStart (options example_restored)"
    unfolding f by (simp add: uniform_item_def)
  have r: "fst (getOffsetForIndex 2 AlignAuto example_restored) = Some (0, AlignStart)"
    using auto_alignment_cases[OF f(6)] c
    unfolding getOffsetForAlignment_value f by (simp add: uniform_item_def)
  show ?thesis using r f(6) unfolding f by (simp add: uniform_item_def)
qed

section \<open>Properties of the measurement cache\<close>

lemma item_at_nat: "i < length xs \<Longrightarrow> item_at xs (int i) = Some (xs ! i)"
  by (simp add: item_at_def)

lemma furthest_loop_total:
  "i \<le> length ms \<Longrightarrow> \<exists>r. furthest_loop i ms l found fur = Some r"
proof (induction i arbitrary: found fur)
  case 0
  then show ?case by simp
next
  case (Suc m)
  then have "m < length ms" by simp
  then have at: "item_at ms (int m) = Some (ms ! m)" by (rule item_at_nat)
  have "m \<le> length ms" using Suc.prems by simp
  from Suc.IH[OF this] show ?case
    by (simp add: at Let_def)
qed

lemma getFurthestMeasurement_total:
  "i \<le> length ms \<Longrightarrow> \<exists>r. getFurthestMeasurement v ms i = Some r"
proof -
  assume "i \<le> length ms"
  from furthest_loop_total[OF this, of "lanes (options v)" "[]" "[]"]
  obtain r where "furthest_loop i ms (lanes (options v)) [] [] = Some r" by blast
  then show ?thesis
    by (simp add: getFurthestMeasurement_def split: list.splits)
qed

lemma measure_item_total:
  "i \<le> length ms \<Longrightarrow> \<exists>it. measure_item v ps sm gk ms i = Some it"
proof -
  assume "i \<le> length ms"
  from getFurthestMeasurement_total[OF this, of v]
  obtain r where "getFurthestMeasurement v ms i = Some r" by blast
  then show ?thesis by (simp add: measure_item_def Let_def)
qed

lemma measure_item_fields:
  assumes "measure_item v ps sm gk ms i = Some it"
  shows "end' it = start it + size' it" and "index it = i" and "key it = gk i"
    and "size' it = (case itemSizeCache v (gk i) of Some s \<Rightarrow> s | None \<Rightarrow> estimateSize (options v) i)"
  using assms by (auto simp: measure_item_def Let_def split: option.splits if_splits)

lemma measure_item_single_lane:
  assumes "lanes (options v) = 1" and "length ms = i"
    and "measure_item v ps sm gk ms i = Some it"
  shows "start it = (if i = 0 then ps + sm else end' (ms ! (i - 1)) + gap (options v))"
proof (cases i)
  case 0
  then have "item_at ms (int i - 1) = None" by (simp add: item_at_def)
  then show ?thesis using assms 0 by (auto simp: measure_item_def Let_def)
next
  case (Suc k)
  then have "item_at ms (int i - 1) = Some (ms ! k)" using assms(2) by (simp add: item_at_def)
  then show ?thesis using assms Suc by (auto simp: measure_item_def Let_def)
qed

lemma dense_set_append:
  "length xs \<le> i \<Longrightarrow> dense_set xs i x = Some ys \<Longrightarrow> i = length xs \<and> ys = xs @ [x]"
  by (auto simp: dense_set_def split: if_splits)

lemma measure_loop_computed:
  "length ms \<le> i \<Longrightarrow> measure_loop v c ps sm gk i ms = Some ms' \<Longrightarrow>
   take (length ms) ms' = ms \<and> length ms \<le> length ms' \<and>
   (\<forall>j. length ms \<le> j \<and> j < length ms' \<longrightarrow>
      end' (ms' ! j) = start (ms' ! j) + size' (ms' ! j) \<and> index (ms' ! j) = j \<and> i \<le> j)"
proof (induction v c ps sm gk i ms arbitrary: ms' rule: measure_loop.induct)
  case (1 v c ps sm gk i ms)
  show ?case
  proof (cases "int i < c")
    case False
    then have "ms' = ms" using "1.prems"(2) by (subst (asm) measure_loop.simps) simp
    then show ?thesis by simp
  next
    case True
    from "1.prems"(2) True obtain it ms1 where
      it: "measure_item v ps sm gk ms i = Some it" and
      ds: "dense_set ms i it = Some ms1" and
      rec: "measure_loop v c ps sm gk (i + 1) ms1 = Some ms'"
      by (subst (asm) measure_loop.simps) (auto split: option.splits)
    from dense_set_append[OF "1.prems"(1) ds] have li: "i = length ms" and m1: "ms1 = ms @ [it]"
      by simp_all
    have "length ms1 \<le> i + 1" using li m1 by simp
    from "1.IH"[OF True it ds this rec]
    have ih: "take (length ms1) ms' = ms1" "length ms1 \<le> length ms'"
      "\<forall>j. length ms1 \<le> j \<and> j < length ms' \<longrightarrow>
        end' (ms' ! j) = start (ms' ! j) + size' (ms' ! j) \<and> index (ms' ! j) = j \<and> i + 1 \<le> j"
      by simp_all
    have pre: "take (length ms) ms' = ms"
    proof -
      have "take (length ms) ms' = take (length ms) (take (length ms1) ms')"
        using m1 by (simp add: min_def)
      also have "\<dots> = ms" using ih(1) m1 by simp
      finally show ?thesis .
    qed
    have at_i: "ms' ! i = it"
    proof -
      have "ms' ! i = take (length ms1) ms' ! i" using li m1 by simp
      also have "\<dots> = it" using ih(1) m1 li by simp
      finally show ?thesis .
    qed
    have "\<forall>j. length ms \<le> j \<and> j < length ms' \<longrightarrow>
      end' (ms' ! j) = start (ms' ! j) + size' (ms' ! j) \<and> index (ms' ! j) = j \<and> i \<le> j"
    proof (intro allI impI)
      fix j assume j: "length ms \<le> j \<and> j < length ms'"
      show "end' (ms' ! j) = start (ms' ! j) + size' (ms' ! j) \<and> index (ms' ! j) = j \<and> i \<le> j"
      proof (cases "j = i")
        case True
        then show ?thesis using at_i measure_item_fields(1,2)[OF it] by simp
      next
        case False
        then have "length ms1 \<le> j" using j li m1 by simp
        then show ?thesis using ih(3) j by auto
      qed
    qed
    then show ?thesis using pre ih(2) m1 by simp
  qed
qed

lemma measure_loop_total:
  "length ms = i \<Longrightarrow>
   \<exists>ms'. measure_loop v c ps sm gk i ms = Some ms' \<and> length ms' = max i (nat c)"
proof (induction v c ps sm gk i ms rule: measure_loop.induct)
  case (1 v c ps sm gk i ms)
  show ?case
  proof (cases "int i < c")
    case False
    then have "measure_loop v c ps sm gk i ms = Some ms"
      by (subst measure_loop.simps) simp
    then show ?thesis using False "1.prems" by auto
  next
    case True
    from measure_item_total[of i ms v ps sm gk] "1.prems"
    obtain it where it: "measure_item v ps sm gk ms i = Some it" by auto
    have ds: "dense_set ms i it = Some (ms @ [it])"
      using "1.prems" by (simp add: dense_set_def)
    have "length (ms @ [it]) = i + 1" using "1.prems" by simp
    from "1.IH"[OF True it ds this]
    obtain ms' where r: "measure_loop v c ps sm gk (i + 1) (ms @ [it]) = Some ms'"
      "length ms' = max (i + 1) (nat c)" by blast
    have "measure_loop v c ps sm gk i ms = Some ms'"
      using True it ds r(1) by (subst measure_loop.simps) simp
    moreover have "max (i + 1) (nat c) = max i (nat c)" using True by linarith
    ultimately show ?thesis using r(2) by simp
  qed
qed

lemma measure_loop_single_lane:
  "lanes (options v) = 1 \<Longrightarrow> length ms = i \<Longrightarrow>
   measure_loop v c ps sm gk i ms = Some ms' \<Longrightarrow>
   (\<forall>j. i \<le> j \<and> j < length ms' \<longrightarrow>
      start (ms' ! j) = (if j = 0 then ps + sm else end' (ms' ! (j - 1)) + gap (options v)))"
proof (induction v c ps sm gk i ms arbitrary: ms' rule: measure_loop.induct)
  case (1 v c ps sm gk i ms)
  show ?case
  proof (cases "int i < c")
    case False
    then have "ms' = ms" using "1.prems"(3) by (subst (asm) measure_loop.simps) simp
    then show ?thesis using "1.prems"(2) by simp
  next
    case True
    from "1.prems"(3) True obtain it ms1 where
      it: "measure_item v ps sm gk ms i = Some it" and
      ds: "dense_set ms i it = Some ms1" and
      rec: "measure_loop v c ps sm gk (i + 1) ms1 = Some ms'"
      by (subst (asm) measure_loop.simps) (auto split: option.splits)
    have m1: "ms1 = ms @ [it]" using ds "1.prems"(2) by (simp add: dense_set_def)
    then have l1: "length ms1 = i + 1" using "1.prems"(2) by simp
    from "1.IH"[OF True it ds "1.prems"(1) l1 rec]
    have ih: "\<forall>j. i + 1 \<le> j \<and> j < length ms' \<longrightarrow>
      start (ms' ! j) = (if j = 0 then ps + sm else end' (ms' ! (j - 1)) + gap (options v))" .
    from measure_loop_computed[OF _ rec] l1
    have pre: "take (length ms1) ms' = ms1" by simp
    have nth_pre: "k < length ms1 \<Longrightarrow> ms' ! k = ms1 ! k" for k
      using pre by (metis nth_take)
    have at_i: "ms' ! i = it" using nth_pre[of i] l1 m1 "1.prems"(2) by (auto simp: nth_append)
    have at_prev: "0 < i \<Longrightarrow> ms' ! (i - 1) = ms ! (i - 1)"
      using nth_pre[of "i - 1"] l1 m1 "1.prems"(2) by (simp add: nth_append)
    show ?thesis
    proof (intro allI impI)
      fix j assume j: "i \<le> j \<and> j < length ms'"
      show "start (ms' ! j) = (if j = 0 then ps + sm else end' (ms' ! (j - 1)) + gap (options v))"
      proof (cases "j = i")
        case True
        show ?thesis
          using measure_item_single_lane[OF "1.prems"(1,2) it] at_i at_prev True by auto
      next
        case False
        then show ?thesis using ih j by auto
      qed
    qed
  qed
qed

lemma with_initial_cache_frame:
  "options (with_initial_cache v) = options v"
  "pendingMeasuredCacheIndexes (with_initial_cache v) = pendingMeasuredCacheIndexes v"
  by (simp_all add: with_initial_cache_def)

lemma getMeasurements_fn_enabled:
  "getMeasurements_fn c ps sm gk True v =
     (case measure_loop ((with_initial_cache v)\<lparr>pendingMeasuredCacheIndexes := []\<rparr>) c ps sm gk
             (min_pending (pendingMeasuredCacheIndexes v))
             (take (min_pending (pendingMeasuredCacheIndexes v))
                (measurementsCache (with_initial_cache v))) of
        None \<Rightarrow> None
      | Some ms \<Rightarrow>
          Some (ms, (with_initial_cache v)\<lparr>pendingMeasuredCacheIndexes := [],
                                            measurementsCache := ms\<rparr>))"
  by (simp add: getMeasurements_fn_def Let_def with_initial_cache_frame)

lemma getMeasurements_fn_disabled:
  "getMeasurements_fn c ps sm gk False v =
     Some ([], v\<lparr>measurementsCache := [], itemSizeCache := Map.empty\<rparr>)"
  by (simp add: getMeasurements_fn_def)

lemma getMeasurements_fn_cache:
  "getMeasurements_fn c ps sm gk en v = Some (ms, v') \<Longrightarrow> measurementsCache v' = ms"
  by (cases en) (auto simp: getMeasurements_fn_enabled getMeasurements_fn_disabled split: option.splits)

lemma getMeasurements_fn_computed:
  assumes "getMeasurements_fn c ps sm gk en v = Some (ms, v')"
  shows "(\<forall>j. min_pending (pendingMeasuredCacheIndexes v) \<le> j \<and> j < length ms \<longrightarrow>
            end' (ms ! j) = start (ms ! j) + size' (ms ! j)) \<and>
         ((\<forall>item \<in> set (take (min_pending (pendingMeasuredCacheIndexes v))
                          (measurementsCache (with_initial_cache v))).
              end' item = start item + size' item) \<longrightarrow>
          (\<forall>item \<in> set ms. end' item = start item + size' item))"
proof (cases en)
  case False
  then have "ms = []" using assms by (simp add: getMeasurements_fn_disabled)
  then show ?thesis by simp
next
  case True
  define m where "m = min_pending (pendingMeasuredCacheIndexes v)"
  define ms0 where "ms0 = take m (measurementsCache (with_initial_cache v))"
  define v2 where "v2 = (with_initial_cache v)\<lparr>pendingMeasuredCacheIndexes := []\<rparr>"
  have loop: "measure_loop v2 c ps sm gk m ms0 = Some ms"
    using assms True
    by (auto simp: getMeasurements_fn_enabled m_def ms0_def v2_def split: option.splits)
  have len0: "length ms0 \<le> m" by (simp add: ms0_def)
  from measure_loop_computed[OF len0 loop]
  have pre: "take (length ms0) ms = ms0" and le: "length ms0 \<le> length ms"
    and comp: "\<forall>j. length ms0 \<le> j \<and> j < length ms \<longrightarrow>
      end' (ms ! j) = start (ms ! j) + size' (ms ! j) \<and> index (ms ! j) = j \<and> m \<le> j"
    by simp_all
  have first: "\<forall>j. m \<le> j \<and> j < length ms \<longrightarrow> end' (ms ! j) = start (ms ! j) + size' (ms ! j)"
    using comp len0 by auto
  have second: "(\<forall>item \<in> set ms0. end' item = start item + size' item) \<longrightarrow>
      (\<forall>item \<in> set ms. end' item = start item + size' item)"
  proof (intro impI ballI)
    fix item assume p: "\<forall>item \<in> set ms0. end' item = start item + size' item"
      and "item \<in> set ms"
    then obtain j where j: "j < length ms" "ms ! j = item" by (auto simp: in_set_conv_nth)
    show "end' item = start item + size' item"
    proof (cases "j < length ms0")
      case True
      then have "ms ! j = ms0 ! j" using pre by (metis nth_take)
      then show ?thesis using p True j(2) by auto
    next
      case False
      then show ?thesis using comp j by auto
    qed
  qed
  show ?thesis using first second unfolding m_def ms0_def by blast
qed

lemma getMeasurements_fn_returns:
  assumes "min_pending (pendingMeasuredCacheIndexes v) \<le> length (measurementsCache (with_initial_cache v))"
  shows "\<exists>ms v'. getMeasurements_fn c ps sm gk en v = Some (ms, v') \<and>
           length ms = (if en then max (min_pending (pendingMeasuredCacheIndexes v)) (nat c) else 0)"
proof (cases en)
  case False
  then show ?thesis by (simp add: getMeasurements_fn_disabled)
next
  case True
  define m where "m = min_pending (pendingMeasuredCacheIndexes v)"
  have "length (take m (measurementsCache (with_initial_cache v))) = m"
    using assms by (simp add: m_def)
  from measure_loop_total[OF this, of "(with_initial_cache v)\<lparr>pendingMeasuredCacheIndexes := []\<rparr>" c ps sm gk]
  show ?thesis using True by (auto simp: getMeasurements_fn_enabled m_def)
qed

lemma fold_min_in: "fold min ps p \<in> set (p # ps)"
proof (induction ps arbitrary: p)
  case Nil
  then show ?case by simp
next
  case (Cons a ps)
  have "fold min ps (min a p) \<in> set (min a p # ps)" by (rule Cons.IH)
  moreover have "min a p = a \<or> min a p = p" by (simp add: min_def)
  ultimately show ?case by auto
qed

lemma min_pending_in: "pending \<noteq> [] \<Longrightarrow> min_pending pending \<in> set pending"
  using fold_min_in by (cases pending) (auto simp: min_pending_def)

lemma min_pending_Nil: "min_pending [] = 0"
  by (simp add: min_pending_def)

lemma resizeItem_cache: "measurementsCache (resizeItem i sz v) = measurementsCache v"
  by (auto simp: resizeItem_def Let_def notify_def scrollToOffset_internal_def
      getScrollOffset_def split: option.splits prod.splits)

lemma resizeItem_pending:
  "pendingMeasuredCacheIndexes (resizeItem i sz v) = pendingMeasuredCacheIndexes v \<or>
   (\<exists>item. item_at (measurementsCache v) i = Some item \<and>
      pendingMeasuredCacheIndexes (resizeItem i sz v) =
        pendingMeasuredCacheIndexes v @ [index item])"
  by (auto simp: resizeItem_def Let_def notify_def scrollToOffset_internal_def
      getScrollOffset_def split: option.splits prod.splits)

lemma compute_enabled_invariant:
  assumes run: "getMeasurements_fn c ps sm gk True v = Some (ms, v')"
    and m: "min_pending (pendingMeasuredCacheIndexes v) \<le> length (measurementsCache (with_initial_cache v))"
    and pre: "\<forall>j < min_pending (pendingMeasuredCacheIndexes v).
        end' (measurementsCache (with_initial_cache v) ! j) =
          start (measurementsCache (with_initial_cache v) ! j) +
          size' (measurementsCache (with_initial_cache v) ! j) \<and>
        index (measurementsCache (with_initial_cache v) ! j) = j"
  shows "measurementsCache v' = ms \<and> pendingMeasuredCacheIndexes v' = [] \<and>
         (\<forall>j < length ms. end' (ms ! j) = start (ms ! j) + size' (ms ! j) \<and> index (ms ! j) = j)"
proof -
  define mn where "mn = min_pending (pendingMeasuredCacheIndexes v)"
  define ms0 where "ms0 = take mn (measurementsCache (with_initial_cache v))"
  define v2 where "v2 = (with_initial_cache v)\<lparr>pendingMeasuredCacheIndexes := []\<rparr>"
  have loop: "measure_loop v2 c ps sm gk mn ms0 = Some ms" and v': "v' = v2\<lparr>measurementsCache := ms\<rparr>"
    using run
    by (auto simp: getMeasurements_fn_enabled mn_def ms0_def v2_def split: option.splits)
  have len0: "length ms0 = mn" using m by (simp add: ms0_def mn_def)
  from measure_loop_computed[OF _ loop] len0
  have tk: "take mn ms = ms0"
    and comp: "\<forall>j. mn \<le> j \<and> j < length ms \<longrightarrow>
      end' (ms ! j) = start (ms ! j) + size' (ms ! j) \<and> index (ms ! j) = j"
    by simp_all
  have "\<forall>j < length ms. end' (ms ! j) = start (ms ! j) + size' (ms ! j) \<and> index (ms ! j) = j"
  proof (intro allI impI)
    fix j assume j: "j < length ms"
    show "end' (ms ! j) = start (ms ! j) + size' (ms ! j) \<and> index (ms ! j) = j"
    proof (cases "j < mn")
      case True
      have "ms ! j = take mn ms ! j" using True by simp
      also have "\<dots> = measurementsCache (with_initial_cache v) ! j"
        using True by (simp add: tk ms0_def)
      finally show ?thesis using pre True by (simp add: mn_def)
    next
      case False
      then show ?thesis using comp j by simp
    qed
  qed
  then show ?thesis by (simp add: v' v2_def)
qed

lemma with_initial_cache_nonempty:
  "measurementsCache v \<noteq> [] \<Longrightarrow> with_initial_cache v = v"
  by (simp add: with_initial_cache_def)

lemma engine_step_invariant:
  assumes "engine_step s a s'" and "cache_invariant s"
  shows "cache_invariant s'"
  using assms
proof (induction rule: engine_step.induct)
  case (other_call v' v d)
  then show ?case by (simp add: cache_invariant_def)
next
  case (resize_call d v i sz)
  have "\<forall>p \<in> set (pendingMeasuredCacheIndexes (resizeItem i sz v)). p < length (measurementsCache v)"
  proof -
    from resizeItem_pending[of i sz v] show ?thesis
    proof
      assume "pendingMeasuredCacheIndexes (resizeItem i sz v) = pendingMeasuredCacheIndexes v"
      then show ?thesis using resize_call by (simp add: cache_invariant_def)
    next
      assume "\<exists>item. item_at (measurementsCache v) i = Some item \<and>
        pendingMeasuredCacheIndexes (resizeItem i sz v) = pendingMeasuredCacheIndexes v @ [index item]"
      then obtain item where it: "item_at (measurementsCache v) i = Some item"
        and p: "pendingMeasuredCacheIndexes (resizeItem i sz v) = pendingMeasuredCacheIndexes v @ [index item]"
        by blast
      from it have i: "0 \<le> i" "nat i < length (measurementsCache v)" "item = measurementsCache v ! nat i"
        by (auto simp: item_at_def split: if_splits)
      then have "index item = nat i" using resize_call by (simp add: cache_invariant_def)
      then show ?thesis using p i resize_call by (auto simp: cache_invariant_def)
    qed
  qed
  then show ?case using resize_call by (simp add: cache_invariant_def resizeItem_cache)
next
  case (measurements_new_options v c ps sm gk en ms v' d)
  define v0 where "v0 = v\<lparr>pendingMeasuredCacheIndexes := []\<rparr>"
  show ?case
  proof (cases en)
    case False
    then have "v' = v0\<lparr>measurementsCache := [], itemSizeCache := Map.empty\<rparr>"
      using measurements_new_options(2) by (simp add: getMeasurements_fn_disabled v0_def)
    then show ?thesis by (simp add: cache_invariant_def v0_def)
  next
    case True
    have p0: "pendingMeasuredCacheIndexes v0 = []" by (simp add: v0_def)
    from compute_enabled_invariant[of c ps sm gk v0 ms v']
      measurements_new_options(2) True
    have "measurementsCache v' = ms \<and> pendingMeasuredCacheIndexes v' = [] \<and>
         (\<forall>j < length ms. end' (ms ! j) = start (ms ! j) + size' (ms ! j) \<and> index (ms ! j) = j)"
      by (simp add: v0_def[symmetric] p0 min_pending_Nil)
    then show ?thesis using True by (simp add: cache_invariant_def)
  qed
next
  case (measurements_rerun d c ps sm gk en v ms v')
  have inv: "\<forall>j < length (measurementsCache v).
           end' (measurementsCache v ! j) =
             start (measurementsCache v ! j) + size' (measurementsCache v ! j) \<and>
           index (measurementsCache v ! j) = j"
    and pend: "\<forall>p \<in> set (pendingMeasuredCacheIndexes v). p < length (measurementsCache v)"
    and en_inv: "measurementsCache v \<noteq> [] \<longrightarrow> en"
    using measurements_rerun(1,4) by (auto simp: cache_invariant_def)
  show ?case
  proof (cases en)
    case False
    then have e: "measurementsCache v = []" using en_inv by blast
    then have "pendingMeasuredCacheIndexes v = []" using pend by (cases "pendingMeasuredCacheIndexes v") auto
    moreover have "v' = v\<lparr>measurementsCache := [], itemSizeCache := Map.empty\<rparr>"
      using measurements_rerun(3) False by (simp add: getMeasurements_fn_disabled)
    ultimately show ?thesis by (simp add: cache_invariant_def)
  next
    case True
    have "min_pending (pendingMeasuredCacheIndexes v) \<le> length (measurementsCache (with_initial_cache v)) \<and>
      (\<forall>j < min_pending (pendingMeasuredCacheIndexes v).
        end' (measurementsCache (with_initial_cache v) ! j) =
          start (measurementsCache (with_initial_cache v) ! j) +
          size' (measurementsCache (with_initial_cache v) ! j) \<and>
        index (measurementsCache (with_initial_cache v) ! j) = j)"
    proof (cases "pendingMeasuredCacheIndexes v = []")
      case True
      then show ?thesis by (simp add: min_pending_Nil)
    next
      case False
      from min_pending_in[OF False] pend
      have lt: "min_pending (pendingMeasuredCacheIndexes v) < length (measurementsCache v)" by blast
      then have "measurementsCache v \<noteq> []" by auto
      then have "with_initial_cache v = v" by (rule with_initial_cache_nonempty)
      then show ?thesis using lt inv by auto
    qed
    then have c1: "min_pending (pendingMeasuredCacheIndexes v) \<le> length (measurementsCache (with_initial_cache v))"
      and c2: "\<forall>j < min_pending (pendingMeasuredCacheIndexes v).
        end' (measurementsCache (with_initial_cache v) ! j) =
          start (measurementsCache (with_initial_cache v) ! j) +
          size' (measurementsCache (with_initial_cache v) ! j) \<and>
        index (measurementsCache (with_initial_cache v) ! j) = j"
      by blast+
    have run: "getMeasurements_fn c ps sm gk True v = Some (ms, v')"
      using measurements_rerun(3) True by simp
    from compute_enabled_invariant[OF run c1 c2]
    have "measurementsCache v' = ms \<and> pendingMeasuredCacheIndexes v' = [] \<and>
         (\<forall>j < length ms. end' (ms ! j) = start (ms ! j) + size' (ms ! j) \<and> index (ms ! j) = j)" .
    then show ?thesis using True measurements_rerun(1) by (simp add: cache_invariant_def)
  qed
next
  case (measurements_cached d v)
  then show ?case by simp
qed

lemma reachable_invariant: "reachable s \<Longrightarrow> cache_invariant s"
proof (induction rule: reachable.induct)
  case (reachable_new opts)
  show ?case by (simp add: cache_invariant_def new_Virtualizer_def)
next
  case (reachable_step s a s')
  then show ?case using engine_step_invariant by blast
qed

lemma engine_step_produces:
  "engine_step s (GetMeasurements ms) s' \<Longrightarrow> measurementsCache (snd s') = ms"
  by (erule engine_step.cases) (auto dest: getMeasurements_fn_cache)

lemma map_set_length: "length (map_set k x m) \<le> Suc (length m)"
  by (induction m) auto

lemma furthest_loop_length:
  "furthest_loop k ms l found fur = Some r \<Longrightarrow> length r \<le> length fur + k"
proof (induction k arbitrary: found fur)
  case 0
  then show ?case by simp
next
  case (Suc m)
  from Suc.prems obtain it where at: "item_at ms (int m) = Some it"
    by (auto split: option.splits)
  show ?case
  proof (cases "lane it \<in> set found")
    case True
    then have "furthest_loop m ms l found fur = Some r" using Suc.prems at by simp
    from Suc.IH[OF this] show ?thesis by simp
  next
    case False
    define fur1 where "fur1 =
      (if (case map_of fur (lane it) of None \<Rightarrow> True | Some previous \<Rightarrow> end' it > end' previous)
       then map_set (lane it) it fur else fur)"
    define found1 where "found1 =
      (if (case map_of fur (lane it) of None \<Rightarrow> False
           | Some previous \<Rightarrow> \<not> end' it > end' previous \<and> end' it < end' previous)
       then found @ [lane it] else found)"
    have l1: "length fur1 \<le> Suc (length fur)"
      using map_set_length[of "lane it" it fur] by (simp add: fur1_def)
    have r: "(if int (length found1) = l then Some fur1 else furthest_loop m ms l found1 fur1) = Some r"
      using Suc.prems at False unfolding fur1_def found1_def
      by (simp add: Let_def split del: if_split)
    show ?thesis
    proof (cases "int (length found1) = l")
      case True
      then have "r = fur1" using r by simp
      then show ?thesis using l1 by simp
    next
      case F: False
      then have "furthest_loop m ms l found1 fur1 = Some r" using r by simp
      from Suc.IH[OF this] l1 show ?thesis by simp
    qed
  qed
qed

lemma getFurthestMeasurement_first:
  assumes "int i < lanes (options v)" and "getFurthestMeasurement v ms i = Some r"
  shows "r = None"
proof -
  from assms(2) obtain fur where f: "furthest_loop i ms (lanes (options v)) [] [] = Some fur"
    by (auto simp: getFurthestMeasurement_def split: option.splits)
  from furthest_loop_length[OF f] have "length fur \<le> i" by simp
  then have "int (length fur) \<noteq> lanes (options v)" using assms(1) by simp
  then show ?thesis using assms(2) f by (simp add: getFurthestMeasurement_def)
qed

lemma js_rem_small: "0 \<le> a \<Longrightarrow> a < b \<Longrightarrow> js_rem a b = a"
  by (simp add: js_rem_def sgn_if)

lemma measure_item_first:
  assumes "int i < lanes (options v)" and "measure_item v ps sm gk ms i = Some it"
  shows "start it = ps + sm \<and> lane it = int i"
proof (cases "lanes (options v) = 1")
  case True
  then have "i = 0" using assms(1) by simp
  then have "item_at ms (int i - 1) = None" by (simp add: item_at_def)
  then show ?thesis using assms True \<open>i = 0\<close> by (auto simp: measure_item_def Let_def js_rem_def)
next
  case False
  from assms(2) False obtain r where g: "getFurthestMeasurement v ms i = Some r"
    by (auto simp: measure_item_def Let_def split: option.splits)
  from getFurthestMeasurement_first[OF assms(1) g] have "r = None" .
  moreover have "js_rem (int i) (lanes (options v)) = int i"
    using assms(1) by (intro js_rem_small) simp_all
  ultimately show ?thesis using assms(2) False g by (auto simp: measure_item_def Let_def)
qed

lemma measure_loop_first_items:
  "length ms \<le> i \<Longrightarrow> measure_loop v c ps sm gk i ms = Some ms' \<Longrightarrow>
   (\<forall>j. length ms \<le> j \<and> j < length ms' \<and> int j < lanes (options v) \<longrightarrow>
      start (ms' ! j) = ps + sm \<and> lane (ms' ! j) = int j)"
proof (induction v c ps sm gk i ms arbitrary: ms' rule: measure_loop.induct)
  case (1 v c ps sm gk i ms)
  show ?case
  proof (cases "int i < c")
    case False
    then have "ms' = ms" using "1.prems"(2) by (subst (asm) measure_loop.simps) simp
    then show ?thesis by simp
  next
    case True
    from "1.prems"(2) True obtain it ms1 where
      it: "measure_item v ps sm gk ms i = Some it" and
      ds: "dense_set ms i it = Some ms1" and
      rec: "measure_loop v c ps sm gk (i + 1) ms1 = Some ms'"
      by (subst (asm) measure_loop.simps) (auto split: option.splits)
    from dense_set_append[OF "1.prems"(1) ds] have li: "i = length ms" and m1: "ms1 = ms @ [it]"
      by simp_all
    have l1: "length ms1 \<le> i + 1" using li m1 by simp
    from "1.IH"[OF True it ds l1 rec]
    have ih: "\<forall>j. length ms1 \<le> j \<and> j < length ms' \<and> int j < lanes (options v) \<longrightarrow>
      start (ms' ! j) = ps + sm \<and> lane (ms' ! j) = int j" .
    from measure_loop_computed[OF l1 rec] have pre: "take (length ms1) ms' = ms1" by simp
    have "ms' ! i = take (length ms1) ms' ! i" using li m1 by simp
    also have "\<dots> = it" unfolding pre using m1 li by (simp add: nth_append)
    finally have at_i: "ms' ! i = it" .
    show ?thesis
    proof (intro allI impI)
      fix j assume j: "length ms \<le> j \<and> j < length ms' \<and> int j < lanes (options v)"
      show "start (ms' ! j) = ps + sm \<and> lane (ms' ! j) = int j"
      proof (cases "j = i")
        case True
        then show ?thesis using measure_item_first[OF _ it] j at_i by simp
      next
        case False
        then have "length ms1 \<le> j" using j li m1 by simp
        then show ?thesis using ih j by simp
      qed
    qed
  qed
qed

text \<open>
  What one run settles, whatever the options were before: with a single lane the recomputed
  items chain with the current gap, and for any number of lanes the recomputed items whose
  index is below the number of lanes start at \<open>paddingStart + scrollMargin\<close>.
\<close>

lemma getMeasurements_fn_settled_suffix:
  assumes "min_pending (pendingMeasuredCacheIndexes v) \<le> length (measurementsCache (with_initial_cache v))"
  shows "\<exists>ms v'. getMeasurements_fn c ps sm gk en v = Some (ms, v') \<and>
           (lanes (options v) = 1 \<longrightarrow>
              (\<forall>j. min_pending (pendingMeasuredCacheIndexes v) \<le> j \<and> j < length ms \<longrightarrow>
                 start (ms ! j) =
                   (if j = 0 then ps + sm else end' (ms ! (j - 1)) + gap (options v)))) \<and>
           (\<forall>j. min_pending (pendingMeasuredCacheIndexes v) \<le> j \<and> j < length ms \<and>
                 int j < lanes (options v) \<longrightarrow>
              start (ms ! j) = ps + sm \<and> lane (ms ! j) = int j)"
proof (cases en)
  case False
  then show ?thesis by (simp add: getMeasurements_fn_disabled)
next
  case True
  define m where "m = min_pending (pendingMeasuredCacheIndexes v)"
  define ms0 where "ms0 = take m (measurementsCache (with_initial_cache v))"
  define v2 where "v2 = (with_initial_cache v)\<lparr>pendingMeasuredCacheIndexes := []\<rparr>"
  have len0: "length ms0 = m" using assms by (simp add: ms0_def m_def)
  from measure_loop_total[OF len0, of v2 c ps sm gk]
  obtain ms where loop: "measure_loop v2 c ps sm gk m ms0 = Some ms" by blast
  have o: "lanes (options v2) = lanes (options v)" and g: "gap (options v2) = gap (options v)"
    by (simp_all add: v2_def with_initial_cache_frame)
  have run: "getMeasurements_fn c ps sm gk en v = Some (ms, v2\<lparr>measurementsCache := ms\<rparr>)"
    using True loop by (simp add: getMeasurements_fn_enabled m_def ms0_def v2_def)
  have chain: "lanes (options v) = 1 \<longrightarrow>
      (\<forall>j. m \<le> j \<and> j < length ms \<longrightarrow>
         start (ms ! j) = (if j = 0 then ps + sm else end' (ms ! (j - 1)) + gap (options v)))"
  proof
    assume "lanes (options v) = 1"
    then have l1: "lanes (options v2) = 1" by (simp add: o)
    from measure_loop_single_lane[OF l1 len0 loop]
    show "\<forall>j. m \<le> j \<and> j < length ms \<longrightarrow>
         start (ms ! j) = (if j = 0 then ps + sm else end' (ms ! (j - 1)) + gap (options v))"
      by (simp add: g)
  qed
  have first: "\<forall>j. m \<le> j \<and> j < length ms \<and> int j < lanes (options v) \<longrightarrow>
      start (ms ! j) = ps + sm \<and> lane (ms ! j) = int j"
    using measure_loop_first_items[OF _ loop] len0 by (simp add: o)
  show ?thesis using run chain first unfolding m_def by blast
qed


lemma reachable_min_pending:
  assumes "reachable (d, v)"
  shows "min_pending (pendingMeasuredCacheIndexes v)
           \<le> length (measurementsCache (with_initial_cache v))"
proof (cases "pendingMeasuredCacheIndexes v = []")
  case True
  then show ?thesis by (simp add: min_pending_Nil)
next
  case False
  from reachable_invariant[OF assms] min_pending_in[OF False]
  have lt: "min_pending (pendingMeasuredCacheIndexes v) < length (measurementsCache v)"
    by (auto simp: cache_invariant_def)
  then have "measurementsCache v \<noteq> []" by auto
  then have "with_initial_cache v = v" by (rule with_initial_cache_nonempty)
  then show ?thesis using lt by simp
qed


lemma reachable_getMeasurements_step:
  assumes "reachable (d, v)"
  shows "\<exists>ms s'. engine_step (d, v) (GetMeasurements ms) s'"
proof -
  obtain c ps sm gk en where deps: "measurement_deps v = (c, ps, sm, gk, en)"
    by (cases "measurement_deps v") auto
  have "min_pending (pendingMeasuredCacheIndexes (v\<lparr>pendingMeasuredCacheIndexes := []\<rparr>))
      \<le> length (measurementsCache (with_initial_cache (v\<lparr>pendingMeasuredCacheIndexes := []\<rparr>)))"
    by (simp add: min_pending_Nil)
  from getMeasurements_fn_returns[OF this, of c ps sm gk en]
  obtain ms v' where
    "getMeasurements_fn c ps sm gk en (v\<lparr>pendingMeasuredCacheIndexes := []\<rparr>) = Some (ms, v')"
    by blast
  from measurements_new_options[OF deps this] show ?thesis by blast
qed

text \<open>
  Claim C1. Every item that a run of \<^verbatim>\<open>getMeasurements\<close> computes (the indexes from the
  lowest pending index on) satisfies \<open>end = start + size\<close>; and in every state the engine can
  reach from a new instance, every item of every sequence that \<^verbatim>\<open>getMeasurements\<close> returns,
  recomputed or cached, the reused prefix included, satisfies \<open>end = start + size\<close>.
\<close>

theorem getMeasurements_end_is_start_plus_size:
  "(getMeasurements_fn c ps sm gk en v = Some (ms, v') \<longrightarrow>
      (\<forall>j. min_pending (pendingMeasuredCacheIndexes v) \<le> j \<and> j < length ms \<longrightarrow>
         end' (ms ! j) = start (ms ! j) + size' (ms ! j))) \<and>
   (reachable s \<and> engine_step s (GetMeasurements ms1) s1 \<longrightarrow>
      (\<forall>item \<in> set ms1. end' item = start item + size' item))"
proof (intro conjI impI)
  assume "getMeasurements_fn c ps sm gk en v = Some (ms, v')"
  from getMeasurements_fn_computed[OF this]
  show "\<forall>j. min_pending (pendingMeasuredCacheIndexes v) \<le> j \<and> j < length ms \<longrightarrow>
         end' (ms ! j) = start (ms ! j) + size' (ms ! j)"
    by blast
next
  assume a: "reachable s \<and> engine_step s (GetMeasurements ms1) s1"
  then have "reachable s1" using reachable_step by blast
  then have inv: "cache_invariant s1" by (rule reachable_invariant)
  have c: "measurementsCache (snd s1) = ms1" using a engine_step_produces by blast
  show "\<forall>item \<in> set ms1. end' item = start item + size' item"
  proof
    fix item assume "item \<in> set ms1"
    then obtain j where "j < length ms1" "ms1 ! j = item" by (auto simp: in_set_conv_nth)
    then show "end' item = start item + size' item"
      using inv c by (cases s1) (auto simp: cache_invariant_def)
  qed
qed

lemma example_first_run:
  "getMeasurements_fn 6 0 0 defaultKeyExtractor True
     ((new_Virtualizer example_options)\<lparr>pendingMeasuredCacheIndexes := []\<rparr>) =
   Some (map uniform_item [0, 1, 2, 3, 4, 5], example_measured)"
  by (simp add: getMeasurements_fn_def new_Virtualizer_def example_options_def
      example_measured_def with_initial_cache_def min_pending_def measure_loop.simps
      measure_item_def dense_set_def item_at_def uniform_item_def defaultKeyExtractor_def
      js_rem_def)

lemma example_resized_eq:
  "example_resized =
     example_scrolled
       \<lparr>scrollAdjustments := 30,
        effects := [ScrollToFn 200 (Some 30) None, Notify False],
        pendingMeasuredCacheIndexes := [1],
        itemSizeCache := [KeyNumber 1 \<mapsto> 80]\<rparr>"
  by (simp add: example_resized_def resizeItem_def example_scrolled_def example_measured_def
      new_Virtualizer_def example_options_def item_at_def uniform_item_def getScrollOffset_def
      notify_def scrollToOffset_internal_def Let_def)

lemma example_second_run_eq:
  "getMeasurements_fn 6 0 0 defaultKeyExtractor True example_resized =
   Some (example_second_run,
         example_resized\<lparr>pendingMeasuredCacheIndexes := [],
                          measurementsCache := example_second_run\<rparr>)"
  unfolding example_resized_eq
  by (simp add: getMeasurements_fn_def example_scrolled_def example_measured_def
      new_Virtualizer_def example_options_def with_initial_cache_def min_pending_def
      measure_loop.simps measure_item_def dense_set_def item_at_def uniform_item_def
      defaultKeyExtractor_def js_rem_def example_second_run_def)

lemma example_resized_facts:
  "lanes (options example_resized) = 1"
  "gap (options example_resized) = 0"
  "pendingMeasuredCacheIndexes example_resized = [1]"
  "measurementsCache example_resized = map uniform_item [0, 1, 2, 3, 4, 5]"
  "measurement_deps example_resized = (6, 0, 0, defaultKeyExtractor, True)"
  unfolding example_resized_eq
  by (simp_all add: example_scrolled_def example_measured_def new_Virtualizer_def
      example_options_def measurement_deps_def)

lemma example_two_lanes_run:
  "getMeasurements_fn 6 0 0 defaultKeyExtractor True
     (new_Virtualizer (example_options\<lparr>lanes := 2\<rparr>)) =
   Some (example_two_lanes,
         (new_Virtualizer (example_options\<lparr>lanes := 2\<rparr>))
           \<lparr>measurementsCache := example_two_lanes\<rparr>)"
  by (simp add: getMeasurements_fn_def new_Virtualizer_def example_options_def
      with_initial_cache_def min_pending_def measure_loop.simps measure_item_def dense_set_def
      item_at_def defaultKeyExtractor_def js_rem_def example_two_lanes_def
      getFurthestMeasurement_def Let_def numeral_2_eq_2 numeral_3_eq_3 eval_nat_numeral)

lemma example_reachable:
  "reachable (Some (6, 0, 0, defaultKeyExtractor, True), example_resized)"
proof -
  have d0: "measurement_deps (new_Virtualizer example_options) = (6, 0, 0, defaultKeyExtractor, True)"
    by (simp add: measurement_deps_def new_Virtualizer_def example_options_def)
  have "reachable (None, new_Virtualizer example_options)" by (rule reachable_new)
  moreover have "engine_step (None, new_Virtualizer example_options)
      (GetMeasurements (map uniform_item [0, 1, 2, 3, 4, 5]))
      (Some (6, 0, 0, defaultKeyExtractor, True), example_measured)"
    by (rule measurements_new_options[OF d0 example_first_run])
  ultimately have r1: "reachable (Some (6, 0, 0, defaultKeyExtractor, True), example_measured)"
    by (rule reachable_step)
  have "engine_step (Some (6, 0, 0, defaultKeyExtractor, True), example_measured) OtherCall
      (Some (6, 0, 0, defaultKeyExtractor, True), example_scrolled)"
    by (rule other_call) (simp_all add: example_scrolled_def)
  with r1 have r2: "reachable (Some (6, 0, 0, defaultKeyExtractor, True), example_scrolled)"
    by (rule reachable_step)
  have "engine_step (Some (6, 0, 0, defaultKeyExtractor, True), example_scrolled)
      (ResizeItem 1 80) (Some (6, 0, 0, defaultKeyExtractor, True), example_resized)"
    unfolding example_resized_def by (rule resize_call)
  with r2 show ?thesis by (rule reachable_step)
qed

theorem getMeasurements_end_is_start_plus_size_witness:
  "(reachable (Some (6, 0, 0, defaultKeyExtractor, True), example_resized) \<and>
    engine_step (Some (6, 0, 0, defaultKeyExtractor, True), example_resized)
      (GetMeasurements example_second_run)
      (Some (6, 0, 0, defaultKeyExtractor, True),
       example_resized\<lparr>pendingMeasuredCacheIndexes := [],
                        measurementsCache := example_second_run\<rparr>)) \<and>
   list_all (\<lambda>item. end' item = start item + size' item) example_second_run \<and>
   getMeasurements_fn 6 0 0 defaultKeyExtractor True example_resized =
     Some (example_second_run,
           example_resized\<lparr>pendingMeasuredCacheIndexes := [],
                            measurementsCache := example_second_run\<rparr>) \<and>
   min_pending (pendingMeasuredCacheIndexes example_resized) \<le> 1 \<and>
   1 < length example_second_run \<and>
   end' (example_second_run ! 1) = start (example_second_run ! 1) + size' (example_second_run ! 1)"
proof -
  have st: "engine_step (Some (6, 0, 0, defaultKeyExtractor, True), example_resized)
      (GetMeasurements example_second_run)
      (Some (6, 0, 0, defaultKeyExtractor, True),
       example_resized\<lparr>pendingMeasuredCacheIndexes := [],
                        measurementsCache := example_second_run\<rparr>)"
    by (rule measurements_rerun[OF refl example_resized_facts(5) example_second_run_eq])
  have m: "min_pending (pendingMeasuredCacheIndexes example_resized) \<le> 1"
    by (simp add: example_resized_facts min_pending_def)
  have l: "1 < length example_second_run" by (simp add: example_second_run_def)
  from getMeasurements_end_is_start_plus_size
    [of 6 0 0 defaultKeyExtractor True example_resized example_second_run
        "example_resized\<lparr>pendingMeasuredCacheIndexes := [],
                         measurementsCache := example_second_run\<rparr>"
        "(Some (6, 0, 0, defaultKeyExtractor, True), example_resized)"
        example_second_run
        "(Some (6, 0, 0, defaultKeyExtractor, True),
          example_resized\<lparr>pendingMeasuredCacheIndexes := [],
                           measurementsCache := example_second_run\<rparr>)"]
    example_reachable st example_second_run_eq
  have a: "\<forall>j. min_pending (pendingMeasuredCacheIndexes example_resized) \<le> j \<and>
        j < length example_second_run \<longrightarrow>
        end' (example_second_run ! j) =
          start (example_second_run ! j) + size' (example_second_run ! j)"
    and b: "\<forall>item \<in> set example_second_run. end' item = start item + size' item"
    by blast+
  from b have b': "list_all (\<lambda>item. end' item = start item + size' item) example_second_run"
    by (simp add: list_all_iff)
  from a m l have a': "end' (example_second_run ! 1) =
      start (example_second_run ! 1) + size' (example_second_run ! 1)"
    by blast
  show ?thesis using example_reachable st b' example_second_run_eq m l a' by blast
qed


section \<open>The single-lane chain in reachable states\<close>















end
